theory Spec2Isabelle
  imports Complex_Main "HOL-Library.Char_ord" "HOL-Library.List_Lexorder" "HOL-Library.AList"
begin

section \<open>Quality control and packaging: the model\<close>

text \<open>
  The program keeps five module-level variables (the item dictionary, two id lists, the
  list of closed boxes and the open box) and a directory of JSON files.  The model
  threads one record holding all of them through every function.

  Conventions of the embedding:
  \<^item> a Python \<open>str\<close> is a \<open>string\<close> whose characters are read as code points below 256;
  \<^item> a Python \<open>float\<close> is a \<open>pyfloat\<close>: a finite value, an infinity or NaN;
  \<^item> \<open>Item\<close> defines no \<open>__eq__\<close>, so \<open>in\<close> and \<open>list.remove\<close> compare objects by
    identity.  Every item carries the address of its object (\<open>addr\<close>), handed out from
    the counter \<open>next_addr\<close> wherever the program constructs an \<open>Item\<close>, so that HOL
    equality on items is identity of objects;
  \<^item> dictionaries exchanged with \<open>json\<close> carry the field types that the annotations of
    \<open>Item.__init__\<close> and \<open>Box.__init__\<close> declare; a key may be absent;
  \<^item> failures of the operating system (a full disk, a missing permission) are outside
    the model.
\<close>

subsection \<open>settings.py\<close>

definition MIN_WEIGHT :: int where "MIN_WEIGHT = 95"
definition MAX_WEIGHT :: int where "MAX_WEIGHT = 105"
definition MIN_LENGTH :: int where "MIN_LENGTH = 10"
definition MAX_LENGTH :: int where "MAX_LENGTH = 20"
definition ALLOWED_COLORS :: "string set" where "ALLOWED_COLORS = {''azul'', ''verde''}"
definition BOX_CAPACITY :: nat where "BOX_CAPACITY = 10"

subsection \<open>Python values\<close>

datatype pyfloat = Finite real | PosInf | NegInf | NaN

text \<open>\<open>n <= x\<close> and \<open>x <= n\<close> for an \<open>int\<close> \<open>n\<close> and a \<open>float\<close> \<open>x\<close>: exact, and false on NaN.\<close>

fun int_le_float :: "int \<Rightarrow> pyfloat \<Rightarrow> bool" where
  "int_le_float n (Finite x) = (of_int n \<le> x)"
| "int_le_float n PosInf = True"
| "int_le_float n NegInf = False"
| "int_le_float n NaN = False"

fun float_le_int :: "pyfloat \<Rightarrow> int \<Rightarrow> bool" where
  "float_le_int (Finite x) n = (x \<le> of_int n)"
| "float_le_int PosInf n = False"
| "float_le_int NegInf n = True"
| "float_le_int NaN n = False"

text \<open>\<open>str.lower\<close> and \<open>str.strip\<close> on code points below 256.\<close>

definition lower_char :: "char \<Rightarrow> char" where
  "lower_char c =
     (let n = (of_char c :: nat)
      in if (65 \<le> n \<and> n \<le> 90) \<or> (192 \<le> n \<and> n \<le> 222 \<and> n \<noteq> 215)
         then char_of (n + 32) else c)"

definition py_lower :: "string \<Rightarrow> string" where
  "py_lower s = map lower_char s"

definition py_isspace :: "char \<Rightarrow> bool" where
  "py_isspace c =
     (let n = (of_char c :: nat)
      in (9 \<le> n \<and> n \<le> 13) \<or> (28 \<le> n \<and> n \<le> 32) \<or> n = 133 \<or> n = 160)"

definition py_strip :: "string \<Rightarrow> string" where
  "py_strip s = rev (dropWhile py_isspace (rev (dropWhile py_isspace s)))"

text \<open>\<open>x or []\<close> for an optional list.\<close>

definition or_empty :: "'a list option \<Rightarrow> 'a list" where
  "or_empty v = (case v of None \<Rightarrow> [] | Some xs \<Rightarrow> (if xs = [] then [] else xs))"

datatype py_error = KeyError | AttributeError

subsection \<open>models.py: Item\<close>

record item =
  addr :: nat
  item_id :: string
  weight :: pyfloat
  color :: string
  item_length :: pyfloat
  approved :: bool
  failure_reasons :: "string list"

text \<open>\<open>Item.__init__\<close>; the first argument is the address of the new object.\<close>

definition Item_init ::
  "nat \<Rightarrow> string \<Rightarrow> pyfloat \<Rightarrow> string \<Rightarrow> pyfloat \<Rightarrow> bool \<Rightarrow> string list option \<Rightarrow> item" where
  "Item_init a i w c l ap fr =
     \<lparr>addr = a, item_id = i, weight = w, color = py_strip (py_lower c), item_length = l,
      approved = ap, failure_reasons = or_empty fr\<rparr>"

record item_dict =
  d_id :: "string option"
  d_weight :: "pyfloat option"
  d_color :: "string option"
  d_length :: "pyfloat option"
  d_approved :: "bool option"
  d_failure_reasons :: "string list option"

definition Item_to_dict :: "item \<Rightarrow> item_dict" where
  "Item_to_dict it =
     \<lparr>d_id = Some (item_id it), d_weight = Some (weight it), d_color = Some (color it),
      d_length = Some (item_length it), d_approved = Some (approved it),
      d_failure_reasons = Some (failure_reasons it)\<rparr>"

text \<open>\<open>d[k]\<close> raises KeyError on a missing key; \<open>d.get(k, default)\<close> does not.\<close>

definition subscript :: "'a option \<Rightarrow> py_error + 'a" where
  "subscript v = (case v of None \<Rightarrow> Inl KeyError | Some x \<Rightarrow> Inr x)"

definition get_default :: "'a option \<Rightarrow> 'a \<Rightarrow> 'a" where
  "get_default v dflt = (case v of None \<Rightarrow> dflt | Some x \<Rightarrow> x)"

definition Item_from_dict :: "nat \<Rightarrow> item_dict \<Rightarrow> py_error + item" where
  "Item_from_dict a d =
     (case subscript (d_id d) of Inl e \<Rightarrow> Inl e | Inr i \<Rightarrow>
      case subscript (d_weight d) of Inl e \<Rightarrow> Inl e | Inr w \<Rightarrow>
      case subscript (d_color d) of Inl e \<Rightarrow> Inl e | Inr c \<Rightarrow>
      case subscript (d_length d) of Inl e \<Rightarrow> Inl e | Inr l \<Rightarrow>
        Inr (Item_init a i w c l (get_default (d_approved d) False)
               (Some (get_default (d_failure_reasons d) []))))"

subsection \<open>quality\_control\_system.py: evaluate\_item\<close>

definition reason_weight :: string where "reason_weight = ''Peso fora da faixa''"
definition reason_color :: string where "reason_color = ''Cor inv'' @ [CHR 0xE1] @ ''lida''"
definition reason_length :: string where "reason_length = ''Comprimento fora da faixa''"

definition evaluate_item :: "item \<Rightarrow> item" where
  "evaluate_item it =
     (let reasons = [];
          reasons = (if \<not> (int_le_float MIN_WEIGHT (weight it) \<and> float_le_int (weight it) MAX_WEIGHT)
                     then reasons @ [reason_weight] else reasons);
          reasons = (if color it \<notin> ALLOWED_COLORS
                     then reasons @ [reason_color] else reasons);
          reasons = (if \<not> (int_le_float MIN_LENGTH (item_length it) \<and> float_le_int (item_length it) MAX_LENGTH)
                     then reasons @ [reason_length] else reasons)
      in if reasons \<noteq> []
         then it\<lparr>approved := False, failure_reasons := reasons\<rparr>
         else it\<lparr>approved := True, failure_reasons := []\<rparr>)"

subsection \<open>models.py: Box\<close>

record box =
  box_id :: int
  closed :: bool
  box_items :: "item list"

definition Box_init :: "int \<Rightarrow> bool \<Rightarrow> item list option \<Rightarrow> box" where
  "Box_init i c its = \<lparr>box_id = i, closed = c, box_items = or_empty its\<rparr>"

definition full :: "box \<Rightarrow> bool" where
  "full b = (length (box_items b) \<ge> BOX_CAPACITY)"

record box_dict =
  bd_id :: "int option"
  bd_closed :: "bool option"
  bd_items :: "item_dict list option"

definition Box_to_dict :: "box \<Rightarrow> box_dict" where
  "Box_to_dict b =
     \<lparr>bd_id = Some (box_id b), bd_closed = Some (closed b),
      bd_items = Some (map Item_to_dict (box_items b))\<rparr>"

text \<open>
  The comprehension \<open>[Item.from_dict(x) for x in ...]\<close>: the objects get consecutive
  addresses from \<open>a\<close> on, and the first failing element aborts the whole list.
\<close>

fun items_from_dicts :: "nat \<Rightarrow> item_dict list \<Rightarrow> py_error + item list" where
  "items_from_dicts a [] = Inr []"
| "items_from_dicts a (d # ds) =
     (case Item_from_dict a d of Inl e \<Rightarrow> Inl e | Inr it \<Rightarrow>
      case items_from_dicts (Suc a) ds of Inl e \<Rightarrow> Inl e | Inr its \<Rightarrow> Inr (it # its))"

definition Box_from_dict :: "nat \<Rightarrow> box_dict \<Rightarrow> py_error + box" where
  "Box_from_dict a d =
     (case subscript (bd_id d) of Inl e \<Rightarrow> Inl e | Inr i \<Rightarrow>
      case items_from_dicts a (get_default (bd_items d) []) of Inl e \<Rightarrow> Inl e | Inr its \<Rightarrow>
        Inr (Box_init i (get_default (bd_closed d) False) (Some its)))"

subsection \<open>The state: module variables and files\<close>

text \<open>A file holds text that \<open>json.load\<close> rejects, or a JSON value.\<close>

datatype 'a contents = Corrupt | Json 'a

record state =
  items :: "string \<rightharpoonup> item"
  approved_items_ids :: "string list"
  not_approved_items_ids :: "string list"
  closed_boxes :: "box list"
  open_box :: "box option"
  box_dir :: "(string \<times> box_dict contents) list"
  rejects_file :: "item_dict list contents option"
  next_addr :: nat

text \<open>The format \<open>box_{box_id:04d}.json\<close>.\<close>

fun str_nat :: "nat \<Rightarrow> string" where
  "str_nat n = (if n < 10 then [char_of (48 + n)] else str_nat (n div 10) @ [char_of (48 + n mod 10)])"

declare str_nat.simps [simp del]

definition zfill :: "nat \<Rightarrow> string \<Rightarrow> string" where
  "zfill w s = replicate (w - length s) (CHR ''0'') @ s"

definition format_04d :: "int \<Rightarrow> string" where
  "format_04d i = (if i < 0 then CHR ''-'' # zfill 3 (str_nat (nat (- i))) else zfill 4 (str_nat (nat i)))"

definition box_filename :: "int \<Rightarrow> string" where
  "box_filename i = ''box_'' @ format_04d i @ ''.json''"

definition startswith :: "string \<Rightarrow> string \<Rightarrow> bool" where
  "startswith s p = (take (length p) s = p)"

definition endswith :: "string \<Rightarrow> string \<Rightarrow> bool" where
  "endswith s p = (length p \<le> length s \<and> drop (length s - length p) s = p)"

definition save_box :: "box \<Rightarrow> state \<Rightarrow> state" where
  "save_box b s = s\<lparr>box_dir := AList.update (box_filename (box_id b)) (Json (Box_to_dict b)) (box_dir s)\<rparr>"

text \<open>The loop of \<open>load_boxes\<close> over the sorted names; an unreadable file is skipped.\<close>

fun read_boxes :: "(string \<times> box_dict contents) list \<Rightarrow> nat \<Rightarrow> string list \<Rightarrow> box list \<times> nat" where
  "read_boxes dir a [] = ([], a)"
| "read_boxes dir a (name # names) =
     (if \<not> startswith name ''box_'' \<or> \<not> endswith name ''.json'' then read_boxes dir a names
      else case map_of dir name of
             Some (Json data) \<Rightarrow>
               (case Box_from_dict a data of
                  Inl e \<Rightarrow> read_boxes dir a names
                | Inr b \<Rightarrow> (let (bs, a') = read_boxes dir (a + length (box_items b)) names
                            in (b # bs, a')))
           | _ \<Rightarrow> read_boxes dir a names)"

definition load_boxes :: "state \<Rightarrow> (box list \<times> box option) \<times> state" where
  "load_boxes s =
     (let (boxes, a) = read_boxes (box_dir s) (next_addr s) (sort (map fst (box_dir s)));
          s = s\<lparr>next_addr := a\<rparr>
      in case boxes of
           [] \<Rightarrow> (let new_box = Box_init 1 False (Some []) in (([], Some new_box), save_box new_box s))
         | b # bs \<Rightarrow>
            (let open_candidates = filter (\<lambda>b. \<not> closed b) boxes;
                 (open_b, s) =
                    (if open_candidates \<noteq> [] then (last (sort_key box_id open_candidates), s)
                     else (let next_id = fold max (map box_id bs) (box_id b) + 1;
                               open_b = Box_init next_id False (Some [])
                           in (open_b, save_box open_b s)));
                 closed_bs = sort_key box_id (filter closed boxes)
             in ((closed_bs, Some open_b), s)))"

text \<open>\<open>save_rejects\<close>: the payload is built first, and \<open>items[pid]\<close> may raise.\<close>

fun rejects_payload :: "(string \<rightharpoonup> item) \<Rightarrow> string list \<Rightarrow> py_error + item_dict list" where
  "rejects_payload m [] = Inr []"
| "rejects_payload m (pid # pids) =
     (case subscript (m pid) of Inl e \<Rightarrow> Inl e | Inr it \<Rightarrow>
      case rejects_payload m pids of Inl e \<Rightarrow> Inl e | Inr ds \<Rightarrow> Inr (Item_to_dict it # ds))"

definition save_rejects :: "state \<Rightarrow> py_error + state" where
  "save_rejects s =
     (case rejects_payload (items s) (not_approved_items_ids s) of
        Inl e \<Rightarrow> Inl e
      | Inr payload \<Rightarrow> Inr (s\<lparr>rejects_file := Some (Json payload)\<rparr>))"

definition load_rejects :: "state \<Rightarrow> item list \<times> state" where
  "load_rejects s =
     (case rejects_file s of
        None \<Rightarrow> ([], s)
      | Some Corrupt \<Rightarrow> ([], s)
      | Some (Json data) \<Rightarrow>
          (case items_from_dicts (next_addr s) data of
             Inl e \<Rightarrow> ([], s)
           | Inr its \<Rightarrow> (its, s\<lparr>next_addr := next_addr s + length its\<rparr>)))"

definition index_item :: "item \<Rightarrow> state \<Rightarrow> state" where
  "index_item it s =
     (let s = s\<lparr>items := (items s)(item_id it \<mapsto> it)\<rparr>
      in if approved it then s\<lparr>approved_items_ids := approved_items_ids s @ [item_id it]\<rparr> else s)"

definition index_reject :: "item \<Rightarrow> state \<Rightarrow> state" where
  "index_reject it s =
     s\<lparr>items := (items s)(item_id it \<mapsto> it),
       not_approved_items_ids := not_approved_items_ids s @ [item_id it]\<rparr>"

definition load_state :: "state \<Rightarrow> state" where
  "load_state s =
     (let s = s\<lparr>items := Map.empty, approved_items_ids := [], not_approved_items_ids := []\<rparr>;
          ((closed_bs, open_b), s) = load_boxes s;
          s = s\<lparr>closed_boxes := closed_bs, open_box := open_b\<rparr>;
          s = fold (\<lambda>b. fold index_item (box_items b))
                (closed_boxes s @ (case open_box s of Some b \<Rightarrow> [b] | None \<Rightarrow> [])) s;
          (rejects, s) = load_rejects s
      in fold index_reject rejects s)"

subsection \<open>quality\_control\_system.py: store, register, remove\<close>

definition store_item :: "item \<Rightarrow> state \<Rightarrow> py_error + state" where
  "store_item it s =
     (case open_box s of
        None \<Rightarrow> Inl AttributeError
      | Some ob \<Rightarrow>
         (let ob = ob\<lparr>box_items := box_items ob @ [it]\<rparr>
          in if full ob then
               (let ob = ob\<lparr>closed := True\<rparr>;
                    s = save_box ob s;
                    s = s\<lparr>closed_boxes := closed_boxes s @ [ob]\<rparr>;
                    nb = Box_init (box_id ob + 1) False (Some []);
                    s = s\<lparr>open_box := Some nb\<rparr>
                in Inr (save_box nb s))
             else Inr (save_box ob (s\<lparr>open_box := Some ob\<rparr>))))"

datatype register_msg = EmptyId | DuplicateId | InvalidInput | Approved | Rejected

text \<open>
  \<open>register_item\<close> reads four lines.  The first is the id as typed; \<open>float(...)\<close> of
  the second and fourth is given as \<open>None\<close> when it raises ValueError; the third is
  the colour as typed.
\<close>

definition register_item ::
  "string \<Rightarrow> pyfloat option \<Rightarrow> string \<Rightarrow> pyfloat option \<Rightarrow> state \<Rightarrow> py_error + (register_msg \<times> state)" where
  "register_item raw_id weight_in color_in length_in s =
     (let i = py_strip raw_id
      in if i = [] then Inr (EmptyId, s)
         else if i \<in> dom (items s) then Inr (DuplicateId, s)
         else case weight_in of None \<Rightarrow> Inr (InvalidInput, s) | Some w \<Rightarrow>
              (let c = py_strip color_in
               in case length_in of None \<Rightarrow> Inr (InvalidInput, s) | Some l \<Rightarrow>
                  (let it = Item_init (next_addr s) i w c l False None;
                       s = s\<lparr>next_addr := Suc (next_addr s)\<rparr>;
                       it = evaluate_item it;
                       s = s\<lparr>items := (items s)(i \<mapsto> it)\<rparr>
                   in if approved it then
                        (case store_item it (s\<lparr>approved_items_ids := approved_items_ids s @ [i]\<rparr>) of
                           Inl e \<Rightarrow> Inl e | Inr s \<Rightarrow> Inr (Approved, s))
                      else
                        (case save_rejects (s\<lparr>not_approved_items_ids := not_approved_items_ids s @ [i]\<rparr>) of
                           Inl e \<Rightarrow> Inl e | Inr s \<Rightarrow> Inr (Rejected, s)))))"

datatype remove_msg = NotFound | Removed

text \<open>
  The loop of \<open>remove_item\<close> over the closed boxes: the first box holding the object
  loses it and is the one saved; the loop then breaks.
\<close>

fun remove_from_closed :: "item \<Rightarrow> box list \<Rightarrow> box list \<times> box option" where
  "remove_from_closed it [] = ([], None)"
| "remove_from_closed it (b # bs) =
     (if it \<in> set (box_items b)
      then (let b = b\<lparr>box_items := remove1 it (box_items b)\<rparr> in (b # bs, Some b))
      else (let (bs, saved) = remove_from_closed it bs in (b # bs, saved)))"

definition remove_item :: "string \<Rightarrow> state \<Rightarrow> py_error + (remove_msg \<times> state)" where
  "remove_item raw_id s =
     (let i = py_strip raw_id
      in case items s i of
           None \<Rightarrow> Inr (NotFound, s)
         | Some it \<Rightarrow>
            if approved it then
              (case open_box s of
                 None \<Rightarrow> Inl AttributeError
               | Some ob \<Rightarrow>
                  (let s = (if it \<in> set (box_items ob)
                            then (let ob = ob\<lparr>box_items := remove1 it (box_items ob)\<rparr>
                                  in save_box ob (s\<lparr>open_box := Some ob\<rparr>))
                            else (let (bs, saved) = remove_from_closed it (closed_boxes s);
                                      s = s\<lparr>closed_boxes := bs\<rparr>
                                  in case saved of None \<Rightarrow> s | Some b \<Rightarrow> save_box b s));
                       s = (if i \<in> set (approved_items_ids s)
                            then s\<lparr>approved_items_ids := remove1 i (approved_items_ids s)\<rparr> else s)
                   in Inr (Removed, s\<lparr>items := (items s)(i := None)\<rparr>)))
            else
              (if i \<in> set (not_approved_items_ids s)
               then (case save_rejects (s\<lparr>not_approved_items_ids := remove1 i (not_approved_items_ids s)\<rparr>) of
                       Inl e \<Rightarrow> Inl e
                     | Inr s \<Rightarrow> Inr (Removed, s\<lparr>items := (items s)(i := None)\<rparr>))
               else Inr (Removed, s\<lparr>items := (items s)(i := None)\<rparr>)))"

subsection \<open>Start of the program\<close>

text \<open>
  The module variables as they are initialised at import, over a given directory of box
  files and a given rejects file; \<open>main\<close> then calls \<open>load_state\<close>.
\<close>

definition initial_state ::
  "(string \<times> box_dict contents) list \<Rightarrow> item_dict list contents option \<Rightarrow> state" where
  "initial_state dir rej =
     \<lparr>items = Map.empty, approved_items_ids = [], not_approved_items_ids = [],
      closed_boxes = [], open_box = None, box_dir = dir, rejects_file = rej, next_addr = 0\<rparr>"

subsection \<open>Notions used in the statements\<close>

text \<open>An item without the identity of its object: the six attributes alone.\<close>

definition unaddressed :: "item \<Rightarrow> item" where
  "unaddressed it = it\<lparr>addr := 0\<rparr>"

text \<open>A colour that \<open>lower\<close> and \<open>strip\<close> leave as it is.\<close>

definition lowercase_stripped :: "string \<Rightarrow> bool" where
  "lowercase_stripped c = (py_lower c = c \<and> py_strip c = c)"

text \<open>The same items in new objects at consecutive addresses.\<close>

fun readdress :: "nat \<Rightarrow> item list \<Rightarrow> item list" where
  "readdress a [] = []"
| "readdress a (it # its) = it\<lparr>addr := a\<rparr> # readdress (Suc a) its"

text \<open>Sample data for the concrete instances.\<close>

definition ex_item :: item where
  "ex_item = \<lparr>addr = 7, item_id = ''P1'', weight = Finite 100, color = ''azul'',
     item_length = Finite 15, approved = True, failure_reasons = []\<rparr>"

definition azul_item :: item where
  "azul_item = Item_init 0 ''P1'' (Finite 100) ''Azul '' (Finite 15) False None"

text \<open>Reading a decimal numeral back, to tell the file names of different boxes apart.\<close>

definition nat_of_str :: "string \<Rightarrow> nat" where
  "nat_of_str s = foldl (\<lambda>a c. 10 * a + (of_char c - 48)) 0 s"

subsection \<open>The menu\<close>

text \<open>
  \<open>generate_final_report\<close>, reduced to the numbers it prints: the two totals, the number
  of closed boxes, and the id and the size of the open box, which it dereferences.
\<close>

definition generate_final_report :: "state \<Rightarrow> py_error + (nat \<times> nat \<times> nat \<times> int \<times> nat)" where
  "generate_final_report s =
     (case open_box s of
        None \<Rightarrow> Inl AttributeError
      | Some ob \<Rightarrow> Inr (length (approved_items_ids s), length (not_approved_items_ids s),
                        length (closed_boxes s), box_id ob, length (box_items ob)))"

text \<open>
  The loop of \<open>main\<close> over the menu choices that touch the state (1, 3 and 5), with what
  the user types; an exception ends the program.
\<close>

datatype command = Register string "pyfloat option" string "pyfloat option" | Remove string | Report

fun menu_loop :: "command list \<Rightarrow> state \<Rightarrow> py_error + state" where
  "menu_loop [] s = Inr s"
| "menu_loop (Register raw_id w c l # cmds) s =
     (case register_item raw_id w c l s of Inl e \<Rightarrow> Inl e | Inr (msg, s) \<Rightarrow> menu_loop cmds s)"
| "menu_loop (Remove raw_id # cmds) s =
     (case remove_item raw_id s of Inl e \<Rightarrow> Inl e | Inr (msg, s) \<Rightarrow> menu_loop cmds s)"
| "menu_loop (Report # cmds) s =
     (case generate_final_report s of Inl e \<Rightarrow> Inl e | Inr r \<Rightarrow> menu_loop cmds s)"

definition main :: "command list \<Rightarrow> state \<Rightarrow> py_error + state" where
  "main cmds s = menu_loop cmds (load_state s)"

text \<open>There is an open box, and it is not closed.\<close>

definition open_box_set :: "state \<Rightarrow> bool" where
  "open_box_set s = (case open_box s of None \<Rightarrow> False | Some b \<Rightarrow> \<not> closed b)"

text \<open>
  More sample data: a state with one closed box and an empty open box; and a directory
  whose only record is an open box that already holds ten items.
\<close>

definition shelf_state :: state where
  "shelf_state =
     \<lparr>items = [''P1'' \<mapsto> ex_item], approved_items_ids = [''P1''], not_approved_items_ids = [],
      closed_boxes = [\<lparr>box_id = 1, closed = True, box_items = [ex_item]\<rparr>],
      open_box = Some \<lparr>box_id = 2, closed = False, box_items = []\<rparr>,
      box_dir = [], rejects_file = None, next_addr = 8\<rparr>"

definition late_item :: item where
  "late_item = ex_item\<lparr>addr := 10, item_id := ''P10''\<rparr>"

definition ten_dicts :: "item_dict list" where
  "ten_dicts = map (\<lambda>k. Item_to_dict (ex_item\<lparr>item_id := ''P'' @ str_nat k\<rparr>)) [0..<10]"

definition ten_items :: "item list" where
  "ten_items = map (\<lambda>k. ex_item\<lparr>addr := k, item_id := ''P'' @ str_nat k\<rparr>) [0..<10]"

definition overfull_dir :: "(string \<times> box_dict contents) list" where
  "overfull_dir = [(''box_0001.json'',
      Json \<lparr>bd_id = Some 1, bd_closed = Some False, bd_items = Some ten_dicts\<rparr>)]"

definition overfull_state :: state where
  "overfull_state = load_state (initial_state overfull_dir None)"

text \<open>The dictionary that inserting the items one after the other builds.\<close>

definition index_of :: "item list \<Rightarrow> (string \<rightharpoonup> item)" where
  "index_of its = map_of (rev (map (\<lambda>it. (item_id it, it)) its))"

text \<open>A directory with two records that both say \<open>closed = false\<close>.\<close>

definition two_open_dir :: "(string \<times> box_dict contents) list" where
  "two_open_dir =
     [(''box_0001.json'', Json \<lparr>bd_id = Some 1, bd_closed = Some False, bd_items = Some [Item_to_dict ex_item]\<rparr>),
      (''box_0002.json'', Json \<lparr>bd_id = Some 2, bd_closed = Some False, bd_items = Some []\<rparr>)]"

subsection \<open>The invariant of the system state\<close>

definition all_boxes :: "state \<Rightarrow> box list" where
  "all_boxes s = closed_boxes s @ (case open_box s of None \<Rightarrow> [] | Some b \<Rightarrow> [b])"

text \<open>The number of boxes, open or closed, that hold the object.\<close>

definition boxes_holding :: "state \<Rightarrow> item \<Rightarrow> nat" where
  "boxes_holding s it = length (filter (\<lambda>b. it \<in> set (box_items b)) (all_boxes s))"

text \<open>
  The invariant in the words of the specification: every approved id resolves to an
  approved item held by exactly one box; every rejected id resolves to an item that is
  not approved; no item is both in a box and among the rejects.
\<close>

definition system_invariant :: "state \<Rightarrow> bool" where
  "system_invariant s =
     ((\<forall>i \<in> set (approved_items_ids s).
         case items s i of None \<Rightarrow> False | Some it \<Rightarrow> approved it \<and> boxes_holding s it = 1)
      \<and> (\<forall>i \<in> set (not_approved_items_ids s).
         case items s i of None \<Rightarrow> False | Some it \<Rightarrow> \<not> approved it)
      \<and> (\<forall>b \<in> set (all_boxes s). \<forall>it \<in> set (box_items b).
            \<forall>i \<in> set (not_approved_items_ids s). items s i \<noteq> Some it))"

text \<open>
  The same over the dictionary, the two id lists and the contents of the boxes, together
  with what makes it inductive: no id is listed twice, no object is packed twice, every
  packed item is approved and is the dictionary's entry for its id, and the dictionary
  files every item under its own id.
\<close>

definition consistent :: "(string \<rightharpoonup> item) \<Rightarrow> string list \<Rightarrow> string list \<Rightarrow> item list list \<Rightarrow> bool" where
  "consistent m ap rj shelves =
     ((\<forall>i \<in> set ap. \<exists>x. m i = Some x \<and> approved x \<and> length (filter (\<lambda>l. x \<in> set l) shelves) = 1)
      \<and> (\<forall>i \<in> set rj. \<exists>x. m i = Some x \<and> \<not> approved x)
      \<and> distinct ap \<and> distinct rj \<and> distinct (concat shelves)
      \<and> (\<forall>x \<in> set (concat shelves). m (item_id x) = Some x \<and> approved x)
      \<and> (\<forall>i x. m i = Some x \<longrightarrow> item_id x = i))"

definition strong_invariant :: "state \<Rightarrow> bool" where
  "strong_invariant s =
     (open_box s \<noteq> None \<and>
      consistent (items s) (approved_items_ids s) (not_approved_items_ids s) (map box_items (all_boxes s)))"

text \<open>
  A directory in which a closed box and the open box both hold an item with id P1, of
  different weights.
\<close>

definition dup_dir :: "(string \<times> box_dict contents) list" where
  "dup_dir =
     [(''box_0001.json'', Json \<lparr>bd_id = Some 1, bd_closed = Some True, bd_items = Some [Item_to_dict ex_item]\<rparr>),
      (''box_0002.json'', Json \<lparr>bd_id = Some 2, bd_closed = Some False,
         bd_items = Some [Item_to_dict (ex_item\<lparr>weight := Finite 101\<rparr>)]\<rparr>)]"

definition dup_state :: state where
  "dup_state = load_state (initial_state dup_dir None)"

subsection \<open>Reconstruction seen without addresses\<close>

definition unaddressed_box :: "box \<Rightarrow> box" where
  "unaddressed_box b = b\<lparr>box_items := map unaddressed (box_items b)\<rparr>"

text \<open>
  The box that \<open>load_boxes\<close> reads from a file, if it reads one: the name must match
  the pattern, the text must be JSON and \<open>Box.from_dict\<close> must not raise.
\<close>

definition readable_box :: "string \<Rightarrow> box_dict contents \<Rightarrow> box option" where
  "readable_box name c =
     (if startswith name ''box_'' \<and> endswith name ''.json''
      then (case c of
              Corrupt \<Rightarrow> None
            | Json d \<Rightarrow> (case Box_from_dict 0 d of Inl e \<Rightarrow> None | Inr b \<Rightarrow> Some (unaddressed_box b)))
      else None)"

definition entry_view :: "(string \<times> box_dict contents) list \<Rightarrow> string \<Rightarrow> box option" where
  "entry_view dir n = (case map_of dir n of None \<Rightarrow> None | Some c \<Rightarrow> readable_box n c)"

definition readable_boxes :: "(string \<times> box_dict contents) list \<Rightarrow> box list" where
  "readable_boxes dir = List.map_filter (entry_view dir) (sort (map fst dir))"

text \<open>The closed boxes and the open box that \<open>load_boxes\<close> makes of the boxes it read.\<close>

definition select_boxes :: "box list \<Rightarrow> box list \<times> box" where
  "select_boxes boxes =
     (sort_key box_id (filter closed boxes),
      if boxes = [] then Box_init 1 False (Some [])
      else if filter (\<lambda>b. \<not> closed b) boxes \<noteq> [] then last (sort_key box_id (filter (\<lambda>b. \<not> closed b) boxes))
      else Box_init (Max (box_id ` set boxes) + 1) False (Some []))"

definition readable_rejects :: "item_dict list contents option \<Rightarrow> item list" where
  "readable_rejects rf =
     (case rf of
        Some (Json data) \<Rightarrow> (case items_from_dicts 0 data of Inl e \<Rightarrow> [] | Inr its \<Rightarrow> map unaddressed its)
      | _ \<Rightarrow> [])"

text \<open>
  The five indexes of a state, with every item reduced to its attributes: the item
  dictionary, the approved order, the rejected order, the closed boxes and the open box.
\<close>

definition state_view ::
  "state \<Rightarrow> (string \<rightharpoonup> item) \<times> string list \<times> string list \<times> box list \<times> box option" where
  "state_view s =
     (map_option unaddressed \<circ> items s, approved_items_ids s, not_approved_items_ids s,
      map unaddressed_box (closed_boxes s), map_option unaddressed_box (open_box s))"

definition rebuilt_view ::
  "box list \<Rightarrow> item list \<Rightarrow> (string \<rightharpoonup> item) \<times> string list \<times> string list \<times> box list \<times> box option" where
  "rebuilt_view boxes rs =
     (let (cbs, ob) = select_boxes boxes;
          its = concat (map box_items (cbs @ [ob]))
      in (index_of (its @ rs), map item_id (filter approved its), map item_id rs, cbs, Some ob))"

text \<open>
  The layout that \<open>save_box\<close> produces: a file name occurs once in the directory, and
  every readable record lies in the file named after its own id.
\<close>

definition stored_by_id :: "(string \<times> box_dict contents) list \<Rightarrow> bool" where
  "stored_by_id dir =
     (distinct (map fst dir) \<and>
      (\<forall>(name, c) \<in> set dir.
          case readable_box name c of None \<Rightarrow> True | Some b \<Rightarrow> name = box_filename (box_id b)))"

text \<open>
  A directory with one closed box in its own file, and one with the record of box 1 in
  the file of box 2.
\<close>

definition closed_dir :: "(string \<times> box_dict contents) list" where
  "closed_dir =
     [(''box_0001.json'', Json \<lparr>bd_id = Some 1, bd_closed = Some True, bd_items = Some [Item_to_dict ex_item]\<rparr>)]"

definition misnamed_dir :: "(string \<times> box_dict contents) list" where
  "misnamed_dir =
     [(''box_0002.json'', Json \<lparr>bd_id = Some 1, bd_closed = Some True, bd_items = Some [Item_to_dict ex_item]\<rparr>)]"

section \<open>Verified properties\<close>

subsection \<open>Evaluation\<close>

text \<open>
  Claim C2.  \<open>evaluate_item\<close> is a function of the item's weight, colour and length:
  it runs the weight check, the colour check (on the colour that \<open>Item.__init__\<close> has
  lowered and stripped) and the length check, all three always and in this order, and
  collects one reason per failed check in that order.  The item is approved exactly when
  no reason was collected, which is exactly when the three checks pass.  Only the verdict
  and the reasons of the item change; evaluating again changes nothing, and the previous
  verdict and reasons have no influence.
\<close>

theorem evaluate_item_checks:
  "failure_reasons (evaluate_item it) =
      (if int_le_float MIN_WEIGHT (weight it) \<and> float_le_int (weight it) MAX_WEIGHT then [] else [reason_weight])
    @ (if color it \<in> ALLOWED_COLORS then [] else [reason_color])
    @ (if int_le_float MIN_LENGTH (item_length it) \<and> float_le_int (item_length it) MAX_LENGTH then [] else [reason_length])
   \<and> approved (evaluate_item it) = (failure_reasons (evaluate_item it) = [])
   \<and> approved (evaluate_item it) =
       ((int_le_float MIN_WEIGHT (weight it) \<and> float_le_int (weight it) MAX_WEIGHT)
        \<and> color it \<in> ALLOWED_COLORS
        \<and> (int_le_float MIN_LENGTH (item_length it) \<and> float_le_int (item_length it) MAX_LENGTH))
   \<and> evaluate_item it = it\<lparr>approved := approved (evaluate_item it), failure_reasons := failure_reasons (evaluate_item it)\<rparr>
   \<and> evaluate_item (evaluate_item it) = evaluate_item it
   \<and> evaluate_item (it\<lparr>approved := ap, failure_reasons := fr\<rparr>) = evaluate_item it
   \<and> color (Item_init a i w c l ap fr') = py_strip (py_lower c)"
  by (auto simp add: evaluate_item_def Item_init_def Let_def)

lemma scenario_approved:
  "evaluate_item (Item_init 0 ''P1'' (Finite 100) ''Azul '' (Finite 15) False None) =
     \<lparr>addr = 0, item_id = ''P1'', weight = Finite 100, color = ''azul'', item_length = Finite 15,
      approved = True, failure_reasons = []\<rparr>"
  by code_simp

lemma scenario_rejected:
  "evaluate_item (Item_init 0 ''P2'' (Finite 200) ''preto'' (Finite 5) False None) =
     \<lparr>addr = 0, item_id = ''P2'', weight = Finite 200, color = ''preto'', item_length = Finite 5,
      approved = False, failure_reasons = [reason_weight, reason_color, reason_length]\<rparr>"
  by code_simp

theorem evaluate_item_checks_witness:
  "approved (evaluate_item azul_item) = (failure_reasons (evaluate_item azul_item) = [])
   \<and> evaluate_item (evaluate_item azul_item) = evaluate_item azul_item"
  using evaluate_item_checks [of azul_item] by blast

subsection \<open>Serialization\<close>

lemma Item_from_to_dict:
  "lowercase_stripped (color it) \<Longrightarrow> Item_from_dict a (Item_to_dict it) = Inr (it\<lparr>addr := a\<rparr>)"
  by (simp add: Item_from_dict_def Item_to_dict_def Item_init_def subscript_def get_default_def
      or_empty_def lowercase_stripped_def)

lemma unaddressed_readdress: "map unaddressed (readdress a its) = map unaddressed its"
  by (induction its arbitrary: a) (simp_all add: unaddressed_def)

lemma items_from_to_dicts_readdress:
  "\<forall>it \<in> set its. lowercase_stripped (color it) \<Longrightarrow>
   items_from_dicts a (map Item_to_dict its) = Inr (readdress a its)"
  by (induction its arbitrary: a) (simp_all add: Item_from_to_dict)

text \<open>
  Claim C9.  For an item whose colour is already lowercase and stripped,
  \<open>Item.from_dict(item.to_dict())\<close> succeeds and gives an item with the same id, weight,
  colour, length, verdict and reasons.  For a box of such items,
  \<open>Box.from_dict(box.to_dict())\<close> succeeds and gives a box with the same id, the same
  closed flag and the same items in the same order (in new objects).
\<close>

theorem serialization_roundtrip:
  "(lowercase_stripped (color it) \<longrightarrow>
      (\<exists>it'. Item_from_dict a (Item_to_dict it) = Inr it' \<and>
         item_id it' = item_id it \<and> weight it' = weight it \<and> color it' = color it \<and>
         item_length it' = item_length it \<and> approved it' = approved it \<and>
         failure_reasons it' = failure_reasons it))
   \<and> ((\<forall>it \<in> set (box_items b). lowercase_stripped (color it)) \<longrightarrow>
      (\<exists>b'. Box_from_dict a (Box_to_dict b) = Inr b' \<and>
         box_id b' = box_id b \<and> closed b' = closed b \<and>
         map unaddressed (box_items b') = map unaddressed (box_items b)))"
proof (intro conjI impI)
  assume "lowercase_stripped (color it)"
  then show "\<exists>it'. Item_from_dict a (Item_to_dict it) = Inr it' \<and>
         item_id it' = item_id it \<and> weight it' = weight it \<and> color it' = color it \<and>
         item_length it' = item_length it \<and> approved it' = approved it \<and>
         failure_reasons it' = failure_reasons it"
    by (simp add: Item_from_to_dict)
next
  assume norm: "\<forall>it \<in> set (box_items b). lowercase_stripped (color it)"
  define its' where "its' = readdress a (box_items b)"
  have parse: "items_from_dicts a (map Item_to_dict (box_items b)) = Inr its'"
    unfolding its'_def using norm by (rule items_from_to_dicts_readdress)
  have same: "map unaddressed its' = map unaddressed (box_items b)"
    unfolding its'_def by (rule unaddressed_readdress)
  have "its' = [] \<longleftrightarrow> box_items b = []"
    using same by (metis map_is_Nil_conv)
  then show "\<exists>b'. Box_from_dict a (Box_to_dict b) = Inr b' \<and>
         box_id b' = box_id b \<and> closed b' = closed b \<and>
         map unaddressed (box_items b') = map unaddressed (box_items b)"
    using parse same by (simp add: Box_from_dict_def Box_to_dict_def Box_init_def subscript_def
        get_default_def or_empty_def)
qed

lemma lowercase_stripped_azul: "lowercase_stripped ''azul''"
  unfolding lowercase_stripped_def by code_simp

theorem serialization_roundtrip_witness:
  "(\<exists>it'. Item_from_dict 0 (Item_to_dict ex_item) = Inr it' \<and> item_id it' = ''P1'' \<and> color it' = ''azul'') \<and>
   (\<exists>b'. Box_from_dict 0 (Box_to_dict \<lparr>box_id = 3, closed = True, box_items = [ex_item]\<rparr>) = Inr b' \<and>
       box_id b' = 3 \<and> closed b' \<and> map unaddressed (box_items b') = [unaddressed ex_item])"
  using serialization_roundtrip [of ex_item 0 "\<lparr>box_id = 3, closed = True, box_items = [ex_item]\<rparr>"]
    lowercase_stripped_azul
  by (auto simp: ex_item_def)

subsection \<open>Refused operations\<close>

text \<open>
  Claim C6.  Removing an id that is not in the item dictionary reports "not found" and
  returns the whole state (dictionary, both id lists, all boxes, all files) as it was.
  Registering a non-empty id that is already in the dictionary reports the duplicate and
  returns the whole state as it was, whatever is typed for weight, colour and length:
  nothing is read or evaluated after the id.
\<close>

theorem refused_operations_keep_state:
  "(items s (py_strip raw_id) = None \<longrightarrow> remove_item raw_id s = Inr (NotFound, s))
   \<and> (py_strip raw_id \<noteq> [] \<and> items s (py_strip raw_id) \<noteq> None \<longrightarrow>
        register_item raw_id weight_in color_in length_in s = Inr (DuplicateId, s))"
  by (auto simp: remove_item_def register_item_def Let_def)

lemma strip_P1: "py_strip '' P1 '' = ''P1''"
  by code_simp

lemma strip_X: "py_strip ''X'' = ''X''"
  by code_simp

theorem refused_operations_keep_state_witness:
  "remove_item ''X'' ((initial_state [] None)\<lparr>items := [''P1'' \<mapsto> ex_item]\<rparr>)
       = Inr (NotFound, (initial_state [] None)\<lparr>items := [''P1'' \<mapsto> ex_item]\<rparr>)
   \<and> register_item '' P1 '' None ''azul'' None ((initial_state [] None)\<lparr>items := [''P1'' \<mapsto> ex_item]\<rparr>)
       = Inr (DuplicateId, (initial_state [] None)\<lparr>items := [''P1'' \<mapsto> ex_item]\<rparr>)"
  using refused_operations_keep_state [of "(initial_state [] None)\<lparr>items := [''P1'' \<mapsto> ex_item]\<rparr>" "''X''"]
    refused_operations_keep_state [of "(initial_state [] None)\<lparr>items := [''P1'' \<mapsto> ex_item]\<rparr>" "'' P1 ''"
      None "''azul''" None]
    strip_X strip_P1
  by (simp add: initial_state_def)

subsection \<open>File names\<close>

lemma nat_of_str_snoc: "nat_of_str (s @ [c]) = 10 * nat_of_str s + (of_char c - 48)"
  by (simp add: nat_of_str_def)

lemma digit_char_val: "d < 10 \<Longrightarrow> (of_char (char_of (48 + d) :: char) :: nat) - 48 = d"
  by (simp add: of_char_of)

lemma nat_of_str_str_nat: "nat_of_str (str_nat n) = n"
proof (induction n rule: str_nat.induct)
  case (1 n)
  show ?case
  proof (cases "n < 10")
    case True
    then show ?thesis
      by (subst str_nat.simps) (simp add: nat_of_str_def digit_char_val)
  next
    case False
    have "n mod 10 < 10" by simp
    then have "(of_char (char_of (48 + n mod 10) :: char) :: nat) - 48 = n mod 10"
      by (rule digit_char_val)
    with False 1 show ?thesis
      by (subst str_nat.simps) (simp add: nat_of_str_snoc)
  qed
qed

lemma nat_of_str_zeros: "nat_of_str (replicate k (CHR ''0'') @ s) = nat_of_str s"
proof -
  have "foldl (\<lambda>a c. 10 * a + (of_char c - 48)) 0 (replicate k (CHR ''0'')) = (0::nat)"
    by (induction k) simp_all
  then show ?thesis by (simp add: nat_of_str_def)
qed

lemma nat_of_str_zfill: "nat_of_str (zfill w (str_nat n)) = n"
  by (simp add: zfill_def nat_of_str_zeros nat_of_str_str_nat)

lemma digit_char_no_minus: "(d::nat) < 10 \<Longrightarrow> (char_of (48 + d) :: char) \<noteq> CHR ''-''"
proof
  assume "d < 10" and "(char_of (48 + d) :: char) = CHR ''-''"
  then have "(of_char (char_of (48 + d) :: char) :: nat) = of_char (CHR ''-'')" by simp
  with \<open>d < 10\<close> show False by (simp add: of_char_of)
qed

lemma str_nat_no_minus: "CHR ''-'' \<notin> set (str_nat n)"
proof (induction n rule: str_nat.induct)
  case (1 n)
  show ?case
  proof (cases "n < 10")
    case True
    then show ?thesis using digit_char_no_minus[of n] by (subst str_nat.simps) auto
  next
    case False
    have "n mod 10 < 10" by simp
    then have "(char_of (48 + n mod 10) :: char) \<noteq> CHR ''-''" by (rule digit_char_no_minus)
    then show ?thesis using False 1 by (subst str_nat.simps) auto
  qed
qed

lemma str_nat_nonempty: "str_nat n \<noteq> []"
  by (subst str_nat.simps) simp

lemma zfill_hd_no_minus: "hd (zfill w (str_nat n)) \<noteq> CHR ''-''"
proof -
  have "zfill w (str_nat n) \<noteq> []" by (simp add: zfill_def str_nat_nonempty)
  moreover have "CHR ''-'' \<notin> set (zfill w (str_nat n))"
    using str_nat_no_minus by (auto simp: zfill_def)
  ultimately show ?thesis by (metis hd_in_set)
qed

lemma format_04d_inj: "format_04d i = format_04d j \<Longrightarrow> i = j"
proof -
  assume eq: "format_04d i = format_04d j"
  consider "i < 0" "j < 0" | "i < 0" "\<not> j < 0" | "\<not> i < 0" "j < 0" | "\<not> i < 0" "\<not> j < 0" by blast
  then show ?thesis
  proof cases
    case 1
    with eq have "zfill 3 (str_nat (nat (- i))) = zfill 3 (str_nat (nat (- j)))"
      by (simp add: format_04d_def)
    then have "nat (- i) = nat (- j)" by (metis nat_of_str_zfill)
    with 1 show ?thesis by simp
  next
    case 2
    with eq have "hd (zfill 4 (str_nat (nat j))) = CHR ''-''"
      by (simp add: format_04d_def) (metis list.sel(1))
    then show ?thesis using zfill_hd_no_minus by blast
  next
    case 3
    with eq have "hd (zfill 4 (str_nat (nat i))) = CHR ''-''"
      by (simp add: format_04d_def)
    then show ?thesis using zfill_hd_no_minus by blast
  next
    case 4
    with eq have "zfill 4 (str_nat (nat i)) = zfill 4 (str_nat (nat j))"
      by (simp add: format_04d_def)
    then have "nat i = nat j" by (metis nat_of_str_zfill)
    with 4 show ?thesis by simp
  qed
qed

lemma box_filename_inj: "box_filename i = box_filename j \<longleftrightarrow> i = j"
  by (auto simp: box_filename_def dest: format_04d_inj)

lemma box_filename_pattern: "startswith (box_filename i) ''box_'' \<and> endswith (box_filename i) ''.json''"
  by (simp add: box_filename_def startswith_def endswith_def)

subsection \<open>Storing\<close>

lemma map_of_save_box:
  "map_of (box_dir (save_box b s)) = (map_of (box_dir s))(box_filename (box_id b) \<mapsto> Json (Box_to_dict b))"
  by (simp add: save_box_def AList.update_conv')

lemma save_box_fields [simp]:
  "items (save_box b s) = items s"
  "approved_items_ids (save_box b s) = approved_items_ids s"
  "not_approved_items_ids (save_box b s) = not_approved_items_ids s"
  "closed_boxes (save_box b s) = closed_boxes s"
  "open_box (save_box b s) = open_box s"
  "rejects_file (save_box b s) = rejects_file s"
  "next_addr (save_box b s) = next_addr s"
  by (simp_all add: save_box_def)

text \<open>
  Claim C1, amended.  Take a state whose open box is not closed, and store an item.  The
  item is appended to the open box.  If the box then holds at least \<open>BOX_CAPACITY\<close>
  items (\<open>Box.full\<close> tests \<open>>=\<close>, not equality), it is marked closed, written to its
  file and appended to the closed boxes, and a new box with the next id, open and empty,
  becomes the open box and is written to its own file.  Otherwise the box, still open, is
  written to its file.  Either way the file of the previously open box holds exactly its
  content in memory, the open box afterwards is neither full nor closed, and the item
  dictionary, both id lists and the rejects file are as before.
\<close>

theorem store_item_packs:
  assumes "open_box s = Some ob" and "\<not> closed ob"
  shows "\<exists>s' ob'. ob' = ob\<lparr>box_items := box_items ob @ [it]\<rparr> \<and> store_item it s = Inr s' \<and>
    (if BOX_CAPACITY \<le> length (box_items ob')
     then closed_boxes s' = closed_boxes s @ [ob'\<lparr>closed := True\<rparr>] \<and>
          open_box s' = Some \<lparr>box_id = box_id ob + 1, closed = False, box_items = []\<rparr> \<and>
          map_of (box_dir s') (box_filename (box_id ob)) = Some (Json (Box_to_dict (ob'\<lparr>closed := True\<rparr>))) \<and>
          map_of (box_dir s') (box_filename (box_id ob + 1)) =
            Some (Json (Box_to_dict \<lparr>box_id = box_id ob + 1, closed = False, box_items = []\<rparr>))
     else closed_boxes s' = closed_boxes s \<and>
          open_box s' = Some ob' \<and>
          map_of (box_dir s') (box_filename (box_id ob)) = Some (Json (Box_to_dict ob')))
    \<and> (\<exists>nb. open_box s' = Some nb \<and> \<not> full nb \<and> \<not> closed nb)
    \<and> items s' = items s \<and> approved_items_ids s' = approved_items_ids s
    \<and> not_approved_items_ids s' = not_approved_items_ids s \<and> rejects_file s' = rejects_file s"
  using assms
  by (auto simp: store_item_def Let_def full_def Box_init_def or_empty_def map_of_save_box
      box_filename_inj BOX_CAPACITY_def)

lemma overfull_open_box:
  "open_box overfull_state = Some \<lparr>box_id = 1, closed = False, box_items = ten_items\<rparr>"
  by code_simp

theorem store_item_packs_witness:
  "map_sum id (\<lambda>s'. (open_box s', closed_boxes s')) (store_item late_item shelf_state) =
     Inr (Some \<lparr>box_id = 2, closed = False, box_items = [late_item]\<rparr>,
          [\<lparr>box_id = 1, closed = True, box_items = [ex_item]\<rparr>])
   \<and> map_sum id (\<lambda>s'. (open_box s', map closed (closed_boxes s'))) (store_item late_item overfull_state) =
     Inr (Some \<lparr>box_id = 2, closed = False, box_items = []\<rparr>,
          map closed (closed_boxes overfull_state) @ [True])"
proof -
  have 1: "map_sum id (\<lambda>s'. (open_box s', closed_boxes s')) (store_item late_item shelf_state) =
     Inr (Some \<lparr>box_id = 2, closed = False, box_items = [late_item]\<rparr>,
          [\<lparr>box_id = 1, closed = True, box_items = [ex_item]\<rparr>])"
    using store_item_packs [of shelf_state "\<lparr>box_id = 2, closed = False, box_items = []\<rparr>" late_item]
    by (auto simp: shelf_state_def BOX_CAPACITY_def)
  have len: "length ten_items = 10" by (simp add: ten_items_def)
  have 2: "map_sum id (\<lambda>s'. (open_box s', map closed (closed_boxes s'))) (store_item late_item overfull_state) =
     Inr (Some \<lparr>box_id = 2, closed = False, box_items = []\<rparr>,
          map closed (closed_boxes overfull_state) @ [True])"
    using store_item_packs [OF overfull_open_box, of late_item] len
    by (auto simp: BOX_CAPACITY_def)
  from 1 2 show ?thesis ..
qed

text \<open>
  Claim C1 as stated fails where the open box already holds \<open>BOX_CAPACITY\<close> items,
  which is what \<open>load_state\<close> makes of a record with \<open>closed = false\<close> and ten items.
  Storing one more item gives eleven, which is not the capacity, so the claim has the box
  written back still open; the program closes it and opens box 2.
\<close>

theorem store_item_overfull_counterexample:
  "map_option (\<lambda>b. (box_id b, closed b, length (box_items b))) (open_box overfull_state) = Some (1, False, 10)
   \<and> (10::nat) + 1 \<noteq> BOX_CAPACITY
   \<and> map_sum id open_box (store_item late_item overfull_state) =
        Inr (Some \<lparr>box_id = 2, closed = False, box_items = []\<rparr>)
   \<and> map_sum id (\<lambda>s'. map (\<lambda>b. (box_id b, closed b, length (box_items b))) (closed_boxes s'))
        (store_item late_item overfull_state) = Inr [(1, True, 11)]"
  by code_simp


subsection \<open>The open box\<close>

lemma load_boxes_open:
  "load_boxes s = ((cbs, ob), s') \<Longrightarrow> \<exists>b. ob = Some b \<and> \<not> closed b"
proof -
  assume lb: "load_boxes s = ((cbs, ob), s')"
  obtain boxes a where rb: "read_boxes (box_dir s) (next_addr s) (sort (map fst (box_dir s))) = (boxes, a)"
    by (cases "read_boxes (box_dir s) (next_addr s) (sort (map fst (box_dir s)))") auto
  show ?thesis
  proof (cases boxes)
    case Nil
    with lb rb show ?thesis by (auto simp: load_boxes_def Let_def Box_init_def)
  next
    case (Cons b bs)
    show ?thesis
    proof (cases "filter (\<lambda>b. \<not> closed b) boxes = []")
      case True
      with lb rb Cons show ?thesis by (auto simp: load_boxes_def Let_def Box_init_def)
    next
      case False
      let ?c = "sort_key box_id (filter (\<lambda>b. \<not> closed b) boxes)"
      have "?c \<noteq> []" using False by (metis length_0_conv length_sort)
      then have "last ?c \<in> set ?c" by (rule last_in_set)
      then have "\<not> closed (last ?c)" by simp
      moreover have "ob = Some (last ?c)"
        using lb rb Cons False by (auto simp: load_boxes_def Let_def)
      ultimately show ?thesis by blast
    qed
  qed
qed

lemma index_item_frame [simp]:
  "open_box (index_item it s) = open_box s"
  "closed_boxes (index_item it s) = closed_boxes s"
  "box_dir (index_item it s) = box_dir s"
  "rejects_file (index_item it s) = rejects_file s"
  "next_addr (index_item it s) = next_addr s"
  "not_approved_items_ids (index_item it s) = not_approved_items_ids s"
  by (simp_all add: index_item_def Let_def)

lemma index_reject_frame [simp]:
  "open_box (index_reject it s) = open_box s"
  "closed_boxes (index_reject it s) = closed_boxes s"
  "box_dir (index_reject it s) = box_dir s"
  "rejects_file (index_reject it s) = rejects_file s"
  "next_addr (index_reject it s) = next_addr s"
  "approved_items_ids (index_reject it s) = approved_items_ids s"
  by (simp_all add: index_reject_def)

lemma fold_index_item_frame [simp]:
  "open_box (fold index_item its s) = open_box s"
  "closed_boxes (fold index_item its s) = closed_boxes s"
  "box_dir (fold index_item its s) = box_dir s"
  "rejects_file (fold index_item its s) = rejects_file s"
  "next_addr (fold index_item its s) = next_addr s"
  "not_approved_items_ids (fold index_item its s) = not_approved_items_ids s"
  by (induction its arbitrary: s; simp)+

lemma fold_boxes_index_frame [simp]:
  "open_box (fold (\<lambda>b. fold index_item (box_items b)) bs s) = open_box s"
  "closed_boxes (fold (\<lambda>b. fold index_item (box_items b)) bs s) = closed_boxes s"
  "box_dir (fold (\<lambda>b. fold index_item (box_items b)) bs s) = box_dir s"
  "rejects_file (fold (\<lambda>b. fold index_item (box_items b)) bs s) = rejects_file s"
  "next_addr (fold (\<lambda>b. fold index_item (box_items b)) bs s) = next_addr s"
  "not_approved_items_ids (fold (\<lambda>b. fold index_item (box_items b)) bs s) = not_approved_items_ids s"
  by (induction bs arbitrary: s; simp)+

lemma fold_index_reject_frame [simp]:
  "open_box (fold index_reject its s) = open_box s"
  "closed_boxes (fold index_reject its s) = closed_boxes s"
  "box_dir (fold index_reject its s) = box_dir s"
  "rejects_file (fold index_reject its s) = rejects_file s"
  "next_addr (fold index_reject its s) = next_addr s"
  "approved_items_ids (fold index_reject its s) = approved_items_ids s"
  by (induction its arbitrary: s; simp)+

lemma load_rejects_frame:
  "load_rejects s = (rs, s') \<Longrightarrow>
     open_box s' = open_box s \<and> closed_boxes s' = closed_boxes s \<and> box_dir s' = box_dir s \<and>
     rejects_file s' = rejects_file s \<and> items s' = items s \<and>
     approved_items_ids s' = approved_items_ids s \<and> not_approved_items_ids s' = not_approved_items_ids s"
  by (auto simp: load_rejects_def split: option.splits contents.splits sum.splits)

lemma load_state_open: "open_box_set (load_state s)"
proof -
  let ?s0 = "s\<lparr>items := Map.empty, approved_items_ids := [], not_approved_items_ids := []\<rparr>"
  obtain cbs ob s1 where lb: "load_boxes ?s0 = ((cbs, ob), s1)"
    by (metis prod.exhaust)
  then obtain b where b: "ob = Some b" "\<not> closed b" using load_boxes_open by blast
  let ?s2 = "fold (\<lambda>b. fold index_item (box_items b)) (cbs @ [b]) (s1\<lparr>closed_boxes := cbs, open_box := Some b\<rparr>)"
  obtain rs s3 where lr: "load_rejects ?s2 = (rs, s3)" by (metis prod.exhaust)
  have "open_box s3 = Some b" using load_rejects_frame[OF lr] by simp
  moreover have "load_state s = fold index_reject rs s3"
    using lb b lr by (simp add: load_state_def Let_def)
  ultimately show ?thesis by (simp add: open_box_set_def b)
qed

lemma store_item_open:
  "open_box_set s \<Longrightarrow> \<exists>s'. store_item it s = Inr s' \<and> open_box_set s'"
  by (auto simp: open_box_set_def store_item_def Let_def Box_init_def split: option.splits)

lemma save_rejects_open:
  "save_rejects s = Inr s' \<Longrightarrow> open_box s' = open_box s"
  by (auto simp: save_rejects_def split: sum.splits)

lemma save_rejects_not_attr: "save_rejects s \<noteq> Inl AttributeError"
proof -
  have "\<And>m. rejects_payload m pids \<noteq> Inl AttributeError" for pids
    by (induction pids) (auto simp: subscript_def split: option.splits sum.splits)
  then show ?thesis by (auto simp: save_rejects_def split: sum.splits)
qed

lemma register_item_new:
  assumes "py_strip r \<noteq> []" and "items s (py_strip r) = None"
  shows "register_item r (Some w) c (Some l) s =
     (let it = evaluate_item (Item_init (next_addr s) (py_strip r) w (py_strip c) l False None);
          s1 = s\<lparr>next_addr := Suc (next_addr s), items := (items s)(py_strip r \<mapsto> it)\<rparr>
      in if approved it
         then (case store_item it (s1\<lparr>approved_items_ids := approved_items_ids s @ [py_strip r]\<rparr>) of
                 Inl e \<Rightarrow> Inl e | Inr s' \<Rightarrow> Inr (Approved, s'))
         else (case save_rejects (s1\<lparr>not_approved_items_ids := not_approved_items_ids s @ [py_strip r]\<rparr>) of
                 Inl e \<Rightarrow> Inl e | Inr s' \<Rightarrow> Inr (Rejected, s')))"
  using assms by (simp add: register_item_def Let_def domIff)

lemma register_item_refused_or_new:
  "(\<exists>m. register_item r w c l s = Inr (m, s)) \<or>
   (\<exists>w' l'. w = Some w' \<and> l = Some l' \<and> py_strip r \<noteq> [] \<and> items s (py_strip r) = None)"
proof (cases "py_strip r = [] \<or> items s (py_strip r) \<noteq> None \<or> w = None \<or> l = None")
  case True
  then have "\<exists>m. register_item r w c l s = Inr (m, s)"
    by (auto simp: register_item_def Let_def domIff split: option.splits)
  then show ?thesis ..
next
  case False
  then show ?thesis by auto
qed

lemma register_item_open:
  assumes "open_box_set s"
  shows "register_item r w c l s \<noteq> Inl AttributeError \<and>
         (\<forall>m s'. register_item r w c l s = Inr (m, s') \<longrightarrow> open_box_set s')"
  using register_item_refused_or_new[of r w c l s]
proof (elim disjE exE conjE)
  fix m assume "register_item r w c l s = Inr (m, s)"
  with assms show ?thesis by simp
next
  fix w' l'
  assume new: "w = Some w'" "l = Some l'" "py_strip r \<noteq> []" "items s (py_strip r) = None"
  define it where "it = evaluate_item (Item_init (next_addr s) (py_strip r) w' (py_strip c) l' False None)"
  define s1 where "s1 = s\<lparr>next_addr := Suc (next_addr s), items := (items s)(py_strip r \<mapsto> it)\<rparr>"
  define sa where "sa = s1\<lparr>approved_items_ids := approved_items_ids s @ [py_strip r]\<rparr>"
  define sr where "sr = s1\<lparr>not_approved_items_ids := not_approved_items_ids s @ [py_strip r]\<rparr>"
  have eq: "register_item r w c l s =
     (if approved it
      then (case store_item it sa of Inl e \<Rightarrow> Inl e | Inr s' \<Rightarrow> Inr (Approved, s'))
      else (case save_rejects sr of Inl e \<Rightarrow> Inl e | Inr s' \<Rightarrow> Inr (Rejected, s')))"
    unfolding new(1,2) register_item_new[OF new(3,4)] it_def s1_def sa_def sr_def Let_def ..
  have "open_box_set sa" using assms by (simp add: sa_def s1_def open_box_set_def)
  then obtain s' where s': "store_item it sa = Inr s'" "open_box_set s'"
    using store_item_open by blast
  have sr: "open_box sr = open_box s" by (simp add: sr_def s1_def)
  show ?thesis
  proof (cases "approved it")
    case True
    with eq s' show ?thesis by simp
  next
    case False
    with eq sr assms save_rejects_not_attr[of sr] show ?thesis
      by (auto split: sum.splits dest!: save_rejects_open simp: open_box_set_def)
  qed
qed

lemma remove_from_closed_shape:
  "map box_id (fst (remove_from_closed it bs)) = map box_id bs \<and>
   map closed (fst (remove_from_closed it bs)) = map closed bs"
  by (induction bs) (auto simp: Let_def split: prod.splits)

lemma remove_item_open:
  assumes "open_box_set s"
  shows "remove_item r s \<noteq> Inl AttributeError \<and>
         (\<forall>m s'. remove_item r s = Inr (m, s') \<longrightarrow> open_box_set s')"
  using assms save_rejects_not_attr
  by (auto simp: remove_item_def Let_def open_box_set_def
      split: option.splits sum.splits prod.splits if_splits dest!: save_rejects_open)

lemma menu_loop_open:
  "open_box_set s \<Longrightarrow> menu_loop cmds s \<noteq> Inl AttributeError \<and>
     (\<forall>s'. menu_loop cmds s = Inr s' \<longrightarrow> open_box_set s')"
proof (induction cmds arbitrary: s)
  case Nil
  then show ?case by simp
next
  case (Cons cmd cmds)
  show ?case
  proof (cases cmd)
    case (Register r w c l)
    show ?thesis
      using register_item_open[OF Cons.prems, of r w c l] Cons.IH
      by (auto simp: Register split: sum.splits)
  next
    case (Remove r)
    show ?thesis
      using remove_item_open[OF Cons.prems, of r] Cons.IH
      by (auto simp: Remove split: sum.splits)
  next
    case Report
    show ?thesis
      using Cons.prems Cons.IH[OF Cons.prems]
      by (auto simp: Report generate_final_report_def open_box_set_def split: option.splits)
  qed
qed

text \<open>
  Claim C10.  \<open>load_boxes\<close> returns an open box on every path.  So after \<open>load_state\<close>
  the open box is set, it stays set through every sequence of registrations, removals and
  reports, and none of them fails on a missing open box.
\<close>

theorem open_box_always_set:
  "(\<exists>b. snd (fst (load_boxes s)) = Some b)
   \<and> (\<exists>b. open_box (load_state s) = Some b)
   \<and> main cmds s \<noteq> Inl AttributeError
   \<and> (\<forall>s'. main cmds s = Inr s' \<longrightarrow> (\<exists>b. open_box s' = Some b))"
proof -
  have 1: "\<exists>b. snd (fst (load_boxes s)) = Some b"
    using load_boxes_open[of s "fst (fst (load_boxes s))" "snd (fst (load_boxes s))" "snd (load_boxes s)"]
    by auto
  have 2: "open_box_set (load_state s)" by (rule load_state_open)
  from menu_loop_open[OF 2, of cmds] 1 2 show ?thesis
    by (auto simp: main_def open_box_set_def split: option.splits)
qed

lemma sample_run_returns:
  "map_sum id (\<lambda>s'. ())
     (main [Register ''P1'' (Some (Finite 100)) ''azul'' (Some (Finite 15)), Report, Remove ''P1'']
        (initial_state [] None)) = Inr ()"
  by code_simp

theorem open_box_always_set_witness:
  "main [Register ''P1'' (Some (Finite 100)) ''azul'' (Some (Finite 15)), Report, Remove ''P1'']
      (initial_state [] None) \<noteq> Inl AttributeError
   \<and> (\<exists>s' b. main [Register ''P1'' (Some (Finite 100)) ''azul'' (Some (Finite 15)), Report, Remove ''P1'']
          (initial_state [] None) = Inr s' \<and> open_box s' = Some b)"
proof -
  let ?run = "main [Register ''P1'' (Some (Finite 100)) ''azul'' (Some (Finite 15)), Report, Remove ''P1'']
      (initial_state [] None)"
  from sample_run_returns obtain s' where s': "?run = Inr s'" by (cases ?run) auto
  from open_box_always_set [of "initial_state [] None"
      "[Register ''P1'' (Some (Finite 100)) ''azul'' (Some (Finite 15)), Report, Remove ''P1'']"] s'
  show ?thesis by blast
qed

subsection \<open>Removing from a closed box\<close>

lemma remove_from_closed_first:
  "k < length bs \<Longrightarrow> it \<in> set (box_items (bs ! k)) \<Longrightarrow> \<forall>j<k. it \<notin> set (box_items (bs ! j)) \<Longrightarrow>
   remove_from_closed it bs =
     (bs[k := (bs ! k)\<lparr>box_items := remove1 it (box_items (bs ! k))\<rparr>],
      Some ((bs ! k)\<lparr>box_items := remove1 it (box_items (bs ! k))\<rparr>))"
proof (induction bs arbitrary: k)
  case Nil
  then show ?case by simp
next
  case (Cons b bs)
  show ?case
  proof (cases k)
    case 0
    with Cons.prems show ?thesis by (simp add: Let_def)
  next
    case (Suc k')
    have nb: "it \<notin> set (box_items b)" using Cons.prems(3) Suc by auto
    have "\<forall>j<k'. it \<notin> set (box_items (bs ! j))"
      using Cons.prems(3) Suc by auto
    with Cons.IH[of k'] Cons.prems(1,2) Suc nb show ?thesis by (simp add: Let_def)
  qed
qed

lemma remove_from_closed_shape':
  "remove_from_closed it bs = (bs', sv) \<Longrightarrow>
     map box_id bs' = map box_id bs \<and> map closed bs' = map closed bs"
  using remove_from_closed_shape[of it bs] by simp

text \<open>
  Claim C5.  Remove an approved item whose object is not in the open box but in some
  closed box.  The closed boxes are searched in order: the first box holding the object
  loses its first occurrence, keeps its id and its closed flag whatever its new size, and
  is written to its file; the other closed boxes and the open box stay as they are.
  Moreover no removal at all, of any id, changes the id or the closed flag of any box.
\<close>

theorem remove_from_closed_box:
  "(items s (py_strip raw_id) = Some it \<and> approved it \<and> open_box s = Some ob \<and>
    it \<notin> set (box_items ob) \<and> k < length (closed_boxes s) \<and>
    it \<in> set (box_items (closed_boxes s ! k)) \<and>
    (\<forall>j<k. it \<notin> set (box_items (closed_boxes s ! j))) \<longrightarrow>
      (\<exists>s' b'. b' = (closed_boxes s ! k)\<lparr>box_items := remove1 it (box_items (closed_boxes s ! k))\<rparr> \<and>
         remove_item raw_id s = Inr (Removed, s') \<and>
         closed_boxes s' = (closed_boxes s)[k := b'] \<and>
         closed b' = closed (closed_boxes s ! k) \<and>
         map_of (box_dir s') (box_filename (box_id b')) = Some (Json (Box_to_dict b')) \<and>
         open_box s' = open_box s))
   \<and> (remove_item raw_id s = Inr (msg, t) \<longrightarrow>
         map closed (closed_boxes t) = map closed (closed_boxes s) \<and>
         map box_id (closed_boxes t) = map box_id (closed_boxes s) \<and>
         map_option closed (open_box t) = map_option closed (open_box s) \<and>
         map_option box_id (open_box t) = map_option box_id (open_box s))"
proof (rule conjI; rule impI)
  assume a: "items s (py_strip raw_id) = Some it \<and> approved it \<and> open_box s = Some ob \<and>
    it \<notin> set (box_items ob) \<and> k < length (closed_boxes s) \<and>
    it \<in> set (box_items (closed_boxes s ! k)) \<and>
    (\<forall>j<k. it \<notin> set (box_items (closed_boxes s ! j)))"
  define b' where "b' = (closed_boxes s ! k)\<lparr>box_items := remove1 it (box_items (closed_boxes s ! k))\<rparr>"
  have rfc: "remove_from_closed it (closed_boxes s) = ((closed_boxes s)[k := b'], Some b')"
    unfolding b'_def using a by (intro remove_from_closed_first) auto
  show "\<exists>s' b'. b' = (closed_boxes s ! k)\<lparr>box_items := remove1 it (box_items (closed_boxes s ! k))\<rparr> \<and>
         remove_item raw_id s = Inr (Removed, s') \<and>
         closed_boxes s' = (closed_boxes s)[k := b'] \<and>
         closed b' = closed (closed_boxes s ! k) \<and>
         map_of (box_dir s') (box_filename (box_id b')) = Some (Json (Box_to_dict b')) \<and>
         open_box s' = open_box s"
    using a rfc unfolding b'_def[symmetric]
    by (auto simp: remove_item_def Let_def map_of_save_box b'_def)
next
  assume r: "remove_item raw_id s = Inr (msg, t)"
  show "map closed (closed_boxes t) = map closed (closed_boxes s) \<and>
         map box_id (closed_boxes t) = map box_id (closed_boxes s) \<and>
         map_option closed (open_box t) = map_option closed (open_box s) \<and>
         map_option box_id (open_box t) = map_option box_id (open_box s)"
    using r
    by (auto simp: remove_item_def Let_def save_rejects_def
      split: option.splits sum.splits prod.splits if_splits
      dest: remove_from_closed_shape')
qed

lemma strip_P1_plain: "py_strip ''P1'' = ''P1''"
  by code_simp

theorem remove_from_closed_box_witness:
  "map_sum id (\<lambda>(m, s'). (m, closed_boxes s', open_box s')) (remove_item ''P1'' shelf_state) =
     Inr (Removed, [\<lparr>box_id = 1, closed = True, box_items = []\<rparr>],
          Some \<lparr>box_id = 2, closed = False, box_items = []\<rparr>)
   \<and> map_sum id (\<lambda>(m, s'). map closed (closed_boxes s')) (remove_item ''P1'' shelf_state) =
     Inr (map closed (closed_boxes shelf_state))"
proof -
  have pre: "items shelf_state (py_strip ''P1'') = Some ex_item \<and> approved ex_item \<and>
      open_box shelf_state = Some \<lparr>box_id = 2, closed = False, box_items = []\<rparr> \<and>
      ex_item \<notin> set (box_items \<lparr>box_id = 2, closed = False, box_items = []\<rparr>) \<and>
      0 < length (closed_boxes shelf_state) \<and>
      ex_item \<in> set (box_items (closed_boxes shelf_state ! 0)) \<and>
      (\<forall>j<0. ex_item \<notin> set (box_items (closed_boxes shelf_state ! j)))"
    using strip_P1_plain by (simp add: shelf_state_def ex_item_def)
  from remove_from_closed_box [of shelf_state "''P1''" ex_item
      "\<lparr>box_id = 2, closed = False, box_items = []\<rparr>" 0 Removed shelf_state] pre
  obtain s' where r: "remove_item ''P1'' shelf_state = Inr (Removed, s')"
    and c: "closed_boxes s' = (closed_boxes shelf_state)
              [0 := (closed_boxes shelf_state ! 0)
                 \<lparr>box_items := remove1 ex_item (box_items (closed_boxes shelf_state ! 0))\<rparr>]"
    and o: "open_box s' = open_box shelf_state"
    by blast
  from remove_from_closed_box [of shelf_state "''P1''" ex_item
      "\<lparr>box_id = 2, closed = False, box_items = []\<rparr>" 0 Removed s'] r
  have f: "map closed (closed_boxes s') = map closed (closed_boxes shelf_state)" by blast
  from r c o f show ?thesis by (simp add: shelf_state_def)
qed

subsection \<open>Choosing the open box\<close>

lemma sorted_le_last: "sorted ys \<Longrightarrow> y \<in> set ys \<Longrightarrow> (y::'a::linorder) \<le> last ys"
  by (induction ys) auto

lemma last_sort_key_max:
  assumes "xs \<noteq> []"
  shows "last (sort_key f xs) \<in> set xs \<and> (\<forall>x \<in> set xs. f x \<le> f (last (sort_key f xs)))"
proof -
  let ?ys = "sort_key f xs"
  have ne: "?ys \<noteq> []" using assms by (metis length_0_conv length_sort)
  have mem: "last ?ys \<in> set xs" using last_in_set[OF ne] by simp
  have srt: "sorted (map f ?ys)" by (rule sorted_sort_key)
  have "f x \<le> f (last ?ys)" if "x \<in> set xs" for x
  proof -
    from that have "f x \<in> set (map f ?ys)" by simp
    moreover have "last (map f ?ys) = f (last ?ys)" using ne by (simp add: last_map)
    moreover have "map f ?ys \<noteq> []" using ne by simp
    ultimately show ?thesis using sorted_le_last[OF srt] by metis
  qed
  with mem show ?thesis by blast
qed

lemma fold_max_Max: "fold max (map f bs) (f b) = Max (f ` set (b # bs))"
proof -
  have "Max (set (f b # map f bs)) = fold max (map f bs) (f b)" by (rule Max.set_eq_fold)
  then show ?thesis by simp
qed


lemma load_boxes_cases:
  assumes rb: "read_boxes (box_dir s) (next_addr s) (sort (map fst (box_dir s))) = (boxes, a)"
  shows "load_boxes s =
     (if boxes = [] then
        (([], Some (Box_init 1 False (Some []))), save_box (Box_init 1 False (Some [])) (s\<lparr>next_addr := a\<rparr>))
      else if filter (\<lambda>b. \<not> closed b) boxes \<noteq> [] then
        ((sort_key box_id (filter closed boxes),
          Some (last (sort_key box_id (filter (\<lambda>b. \<not> closed b) boxes)))), s\<lparr>next_addr := a\<rparr>)
      else
        ((sort_key box_id (filter closed boxes),
          Some (Box_init (Max (box_id ` set boxes) + 1) False (Some []))),
         save_box (Box_init (Max (box_id ` set boxes) + 1) False (Some [])) (s\<lparr>next_addr := a\<rparr>)))"
proof (cases boxes)
  case Nil
  with rb show ?thesis by (simp add: load_boxes_def Let_def)
next
  case (Cons b bs)
  have "fold max (map box_id bs) (box_id b) = Max (box_id ` set boxes)"
    unfolding Cons by (rule fold_max_Max)
  with rb Cons show ?thesis by (simp add: load_boxes_def Let_def)
qed

text \<open>
  Claim C3.  Let \<open>boxes\<close> be the boxes that \<open>load_boxes\<close> reads from the readable
  records.  If there is none, the open box is a new box 1, open and empty, written to its
  file, and no box is closed.  If some record has \<open>closed = false\<close>, the open box is such
  a record with the largest id among them, and nothing is written.  If all records are
  closed, the open box is a new box with id \<open>max + 1\<close>, open and empty, written to its
  file.  The closed boxes are exactly the records with \<open>closed = true\<close>, in ascending
  order of id.
\<close>

theorem load_boxes_selection:
  assumes "read_boxes (box_dir s) (next_addr s) (sort (map fst (box_dir s))) = (boxes, a)"
  shows "\<exists>cbs ob s'. load_boxes s = ((cbs, Some ob), s') \<and>
     cbs = sort_key box_id (filter closed boxes) \<and> sorted (map box_id cbs) \<and>
     set cbs = {b \<in> set boxes. closed b} \<and> length cbs = length (filter closed boxes) \<and>
     (boxes = [] \<longrightarrow>
        ob = \<lparr>box_id = 1, closed = False, box_items = []\<rparr> \<and> cbs = [] \<and>
        s' = save_box ob (s\<lparr>next_addr := a\<rparr>)) \<and>
     (boxes \<noteq> [] \<and> (\<exists>b \<in> set boxes. \<not> closed b) \<longrightarrow>
        ob \<in> set boxes \<and> \<not> closed ob \<and> (\<forall>b \<in> set boxes. \<not> closed b \<longrightarrow> box_id b \<le> box_id ob) \<and>
        s' = s\<lparr>next_addr := a\<rparr>) \<and>
     (boxes \<noteq> [] \<and> (\<forall>b \<in> set boxes. closed b) \<longrightarrow>
        ob = \<lparr>box_id = Max (box_id ` set boxes) + 1, closed = False, box_items = []\<rparr> \<and>
        s' = save_box ob (s\<lparr>next_addr := a\<rparr>)) \<and>
     (ob \<notin> set boxes \<longrightarrow> map_of (box_dir s') (box_filename (box_id ob)) = Some (Json (Box_to_dict ob)))"
proof -
  note lb = load_boxes_cases[OF assms]
  let ?cbs = "sort_key box_id (filter closed boxes)"
  have cbs: "sorted (map box_id ?cbs)" "set ?cbs = {b \<in> set boxes. closed b}"
      "length ?cbs = length (filter closed boxes)"
    by (simp_all add: sorted_sort_key)
  consider (empty) "boxes = []"
    | (some_open) "boxes \<noteq> []" "filter (\<lambda>b. \<not> closed b) boxes \<noteq> []"
    | (all_closed) "boxes \<noteq> []" "filter (\<lambda>b. \<not> closed b) boxes = []" by blast
  then show ?thesis
  proof cases
    case empty
    let ?ob = "\<lparr>box_id = 1, closed = False, box_items = []\<rparr>"
    have "load_boxes s = ((?cbs, Some ?ob), save_box ?ob (s\<lparr>next_addr := a\<rparr>))"
      using lb empty by (simp add: Box_init_def or_empty_def)
    moreover have "map_of (box_dir (save_box ?ob (s\<lparr>next_addr := a\<rparr>))) (box_filename (box_id ?ob)) =
        Some (Json (Box_to_dict ?ob))"
      by (simp add: map_of_save_box)
    ultimately show ?thesis using empty by simp
  next
    case some_open
    let ?ob = "last (sort_key box_id (filter (\<lambda>b. \<not> closed b) boxes))"
    from last_sort_key_max[OF some_open(2), of box_id]
    have ob: "?ob \<in> set boxes" "\<not> closed ?ob" "\<forall>b \<in> set boxes. \<not> closed b \<longrightarrow> box_id b \<le> box_id ?ob"
      by auto
    have nac: "\<not> (\<forall>b \<in> set boxes. closed b)" using ob(1,2) by blast
    have "load_boxes s = ((?cbs, Some ?ob), s\<lparr>next_addr := a\<rparr>)"
      using lb some_open by simp
    then show ?thesis using ob nac some_open(1) cbs by blast
  next
    case all_closed
    then have ac: "\<forall>b \<in> set boxes. closed b" by (simp add: filter_empty_conv)
    let ?ob = "\<lparr>box_id = Max (box_id ` set boxes) + 1, closed = False, box_items = []\<rparr>"
    have "load_boxes s = ((?cbs, Some ?ob), save_box ?ob (s\<lparr>next_addr := a\<rparr>))"
      using lb all_closed by (simp add: Box_init_def or_empty_def)
    moreover have "map_of (box_dir (save_box ?ob (s\<lparr>next_addr := a\<rparr>))) (box_filename (box_id ?ob)) =
        Some (Json (Box_to_dict ?ob))"
      by (simp add: map_of_save_box)
    moreover have "\<not> (\<exists>b \<in> set boxes. \<not> closed b)" using ac by blast
    ultimately show ?thesis using all_closed(1) cbs by blast
  qed
qed

lemma read_two_open:
  "read_boxes two_open_dir 0 (sort (map fst two_open_dir)) =
     ([\<lparr>box_id = 1, closed = False, box_items = [ex_item\<lparr>addr := 0\<rparr>]\<rparr>,
       \<lparr>box_id = 2, closed = False, box_items = []\<rparr>], 1)"
  by code_simp

lemma read_closed_dir:
  "read_boxes closed_dir 0 (sort (map fst closed_dir)) =
     ([\<lparr>box_id = 1, closed = True, box_items = [ex_item\<lparr>addr := 0\<rparr>]\<rparr>], 1)"
  by code_simp

theorem load_boxes_selection_witness:
  "map_prod (map_prod id (map_option box_id)) box_dir (load_boxes (initial_state two_open_dir None)) =
     (([], Some 2), two_open_dir)
   \<and> fst (load_boxes (initial_state [] None)) = ([], Some \<lparr>box_id = 1, closed = False, box_items = []\<rparr>)
   \<and> map_prod (map box_id) (map_option box_id) (fst (load_boxes (initial_state closed_dir None))) =
     ([1], Some 2)"
proof -
  define b1 where "b1 = \<lparr>box_id = 1, closed = False, box_items = [ex_item\<lparr>addr := 0\<rparr>]\<rparr>"
  define b2 where "b2 = \<lparr>box_id = 2, closed = False, box_items = []\<rparr>"
  define st where "st = initial_state two_open_dir None"
  have rb: "read_boxes (box_dir st) (next_addr st) (sort (map fst (box_dir st))) = ([b1, b2], 1)"
    using read_two_open by (simp add: initial_state_def st_def b1_def b2_def)
  have b: "box_id b1 = 1" "box_id b2 = 2" "\<not> closed b1" "\<not> closed b2"
    by (simp_all add: b1_def b2_def)
  from load_boxes_selection [OF rb]
  obtain cbs ob s' where lb: "load_boxes st = ((cbs, Some ob), s')"
    and cbs: "cbs = sort_key box_id (filter closed [b1, b2])"
    and sel: "[b1, b2] \<noteq> [] \<and> (\<exists>b \<in> set [b1, b2]. \<not> closed b) \<longrightarrow>
        ob \<in> set [b1, b2] \<and> \<not> closed ob \<and> (\<forall>b \<in> set [b1, b2]. \<not> closed b \<longrightarrow> box_id b \<le> box_id ob) \<and>
        s' = st\<lparr>next_addr := 1\<rparr>"
    by blast
  from sel b have "ob \<in> set [b1, b2]" "box_id b2 \<le> box_id ob" "s' = st\<lparr>next_addr := 1\<rparr>"
    by simp_all
  with b have "box_id ob = 2" "box_dir s' = two_open_dir"
    by (auto simp: st_def initial_state_def)
  moreover have "cbs = []" using cbs b by simp
  ultimately have 1: "map_prod (map_prod id (map_option box_id)) box_dir
      (load_boxes (initial_state two_open_dir None)) = (([], Some 2), two_open_dir)"
    using lb by (simp add: st_def)
  have rb0: "read_boxes (box_dir (initial_state [] None)) (next_addr (initial_state [] None))
      (sort (map fst (box_dir (initial_state [] None)))) = ([], 0)"
    by (simp add: initial_state_def)
  from load_boxes_selection [OF rb0]
  have 2: "fst (load_boxes (initial_state [] None)) =
      ([], Some \<lparr>box_id = 1, closed = False, box_items = []\<rparr>)"
    by auto
  define c1 where "c1 = \<lparr>box_id = 1, closed = True, box_items = [ex_item\<lparr>addr := 0\<rparr>]\<rparr>"
  have rbc: "read_boxes (box_dir (initial_state closed_dir None)) (next_addr (initial_state closed_dir None))
      (sort (map fst (box_dir (initial_state closed_dir None)))) = ([c1], 1)"
    using read_closed_dir by (simp add: initial_state_def c1_def)
  have c: "box_id c1 = 1" "closed c1" by (simp_all add: c1_def)
  from load_boxes_selection [OF rbc]
  obtain cbs' ob' t' where lbc: "load_boxes (initial_state closed_dir None) = ((cbs', Some ob'), t')"
    and cbs': "cbs' = sort_key box_id (filter closed [c1])"
    and allc: "[c1] \<noteq> [] \<and> (\<forall>b \<in> set [c1]. closed b) \<longrightarrow>
        ob' = \<lparr>box_id = Max (box_id ` set [c1]) + 1, closed = False, box_items = []\<rparr> \<and>
        t' = save_box ob' (initial_state closed_dir None\<lparr>next_addr := 1\<rparr>)"
    by blast
  from allc c have "box_id ob' = 2" by simp
  moreover from cbs' c have "map box_id cbs' = [1]" by simp
  ultimately have 3: "map_prod (map box_id) (map_option box_id)
      (fst (load_boxes (initial_state closed_dir None))) = ([1], Some 2)"
    using lbc by simp
  from 1 2 3 show ?thesis by blast
qed

subsection \<open>What reconstruction builds\<close>

lemma fold_index_item_items:
  "items (fold index_item its t) = items t ++ index_of its"
proof (induction its arbitrary: t)
  case Nil
  then show ?case by (simp add: index_of_def)
next
  case (Cons it its)
  have "items (index_item it t) = (items t)(item_id it \<mapsto> it)"
    by (simp add: index_item_def Let_def)
  moreover have "index_of (it # its) = [item_id it \<mapsto> it] ++ index_of its"
    by (simp add: index_of_def map_of_append)
  ultimately have "items (index_item it t) ++ index_of its = items t ++ index_of (it # its)"
    by simp
  then show ?case using Cons.IH[of "index_item it t"] by simp
qed

lemma fold_index_item_approved:
  "approved_items_ids (fold index_item its t) = approved_items_ids t @ map item_id (filter approved its)"
  by (induction its arbitrary: t) (simp_all add: index_item_def Let_def)


lemma fold_boxes_flat:
  "fold (\<lambda>b. fold index_item (box_items b)) bs t = fold index_item (concat (map box_items bs)) t"
  by (induction bs arbitrary: t) simp_all

lemma fold_index_reject_items:
  "items (fold index_reject rs t) = items t ++ index_of rs"
proof (induction rs arbitrary: t)
  case Nil
  then show ?case by (simp add: index_of_def)
next
  case (Cons it its)
  have "items (index_reject it t) = (items t)(item_id it \<mapsto> it)"
    by (simp add: index_reject_def)
  moreover have "index_of (it # its) = [item_id it \<mapsto> it] ++ index_of its"
    by (simp add: index_of_def map_of_append)
  ultimately have "items (index_reject it t) ++ index_of its = items t ++ index_of (it # its)"
    by simp
  then show ?case using Cons.IH[of "index_reject it t"] by simp
qed

lemma fold_index_reject_ids:
  "not_approved_items_ids (fold index_reject rs t) = not_approved_items_ids t @ map item_id rs"
  by (induction rs arbitrary: t) (simp_all add: index_reject_def)

lemma index_of_append: "index_of (xs @ ys) = index_of xs ++ index_of ys"
  by (simp add: index_of_def map_of_append)

lemma dom_index_of: "dom (index_of its) = item_id ` set its"
  by (simp add: index_of_def dom_map_of_conv_image_fst image_image)

lemma load_rejects_result:
  "snd (load_rejects t) = t\<lparr>next_addr := next_addr t + length (fst (load_rejects t))\<rparr>"
  by (auto simp: load_rejects_def split: option.splits contents.splits sum.splits)

lemma load_rejects_cong:
  "rejects_file t = rejects_file u \<Longrightarrow> next_addr t = next_addr u \<Longrightarrow>
   fst (load_rejects t) = fst (load_rejects u)"
  by (auto simp: load_rejects_def split: option.splits contents.splits sum.splits)

lemma load_boxes_frame:
  assumes "load_boxes s = (r, s1)"
  shows "rejects_file s1 = rejects_file s \<and> items s1 = items s \<and>
         approved_items_ids s1 = approved_items_ids s \<and>
         not_approved_items_ids s1 = not_approved_items_ids s \<and>
         closed_boxes s1 = closed_boxes s \<and> open_box s1 = open_box s"
proof -
  obtain boxes a where rb: "read_boxes (box_dir s) (next_addr s) (sort (map fst (box_dir s))) = (boxes, a)"
    by (metis prod.exhaust)
  show ?thesis using assms unfolding load_boxes_cases[OF rb]
    by (auto split: if_splits)
qed

lemma load_state_char:
  assumes lb: "load_boxes (s\<lparr>items := Map.empty, approved_items_ids := [], not_approved_items_ids := []\<rparr>)
                 = ((cbs, Some ob), s1)"
  defines "rs \<equiv> fst (load_rejects s1)"
  defines "its \<equiv> concat (map box_items (cbs @ [ob]))"
  shows "items (load_state s) = index_of (its @ rs)"
    and "approved_items_ids (load_state s) = map item_id (filter approved its)"
    and "not_approved_items_ids (load_state s) = map item_id rs"
    and "closed_boxes (load_state s) = cbs"
    and "open_box (load_state s) = Some ob"
    and "box_dir (load_state s) = box_dir s1"
    and "rejects_file (load_state s) = rejects_file s"
    and "next_addr (load_state s) = next_addr s1 + length rs"
proof -
  let ?s0 = "s\<lparr>items := Map.empty, approved_items_ids := [], not_approved_items_ids := []\<rparr>"
  let ?s2 = "fold index_item its (s1\<lparr>closed_boxes := cbs, open_box := Some ob\<rparr>)"
  note fr = load_boxes_frame[OF lb]
  have rs2: "fst (load_rejects ?s2) = rs"
    unfolding rs_def by (rule load_rejects_cong) simp_all
  have s3: "snd (load_rejects ?s2) = ?s2\<lparr>next_addr := next_addr s1 + length rs\<rparr>"
    using load_rejects_result[of ?s2] rs2 by simp
  have lr: "load_rejects ?s2 = (rs, ?s2\<lparr>next_addr := next_addr s1 + length rs\<rparr>)"
    using rs2 s3 by (metis prod.collapse)
  have ls: "load_state s = fold index_reject rs (?s2\<lparr>next_addr := next_addr s1 + length rs\<rparr>)"
    using lb lr
    by (simp add: load_state_def Let_def fold_boxes_flat its_def)
  show "items (load_state s) = index_of (its @ rs)"
    using fr by (simp add: ls fold_index_reject_items fold_index_item_items index_of_append)
  show "approved_items_ids (load_state s) = map item_id (filter approved its)"
    using fr by (simp add: ls fold_index_item_approved)
  show "not_approved_items_ids (load_state s) = map item_id rs"
    using fr by (simp add: ls fold_index_reject_ids)
  show "closed_boxes (load_state s) = cbs" by (simp add: ls)
  show "open_box (load_state s) = Some ob" by (simp add: ls)
  show "box_dir (load_state s) = box_dir s1" by (simp add: ls)
  show "rejects_file (load_state s) = rejects_file s" using fr by (simp add: ls)
  show "next_addr (load_state s) = next_addr s1 + length rs" by (simp add: ls)
qed

text \<open>
  Claim C4, amended.  When two or more readable records say \<open>closed = false\<close>,
  \<open>load_state\<close> takes one with the largest id as the open box and writes nothing to the
  directory.  The other such records are not treated as closed: the closed boxes are the
  records with \<open>closed = true\<close> only, and the index is built from the closed boxes, the
  open box and the rejects file alone.  So the items of the other open records are in
  neither the item dictionary nor the approved order (unless their id also comes from
  one of those sources).
\<close>

theorem demoted_open_boxes_dropped:
  assumes rb: "read_boxes (box_dir s) (next_addr s) (sort (map fst (box_dir s))) = (boxes, a)"
      and two: "2 \<le> length (filter (\<lambda>b. \<not> closed b) boxes)"
  shows "\<exists>ob. open_box (load_state s) = Some ob \<and> ob \<in> set boxes \<and> \<not> closed ob \<and>
     (\<forall>b \<in> set boxes. \<not> closed b \<longrightarrow> box_id b \<le> box_id ob) \<and>
     closed_boxes (load_state s) = sort_key box_id (filter closed boxes) \<and>
     (\<forall>b \<in> set boxes. \<not> closed b \<longrightarrow> b \<notin> set (closed_boxes (load_state s))) \<and>
     box_dir (load_state s) = box_dir s \<and>
     approved_items_ids (load_state s) =
       map item_id (filter approved (concat (map box_items (closed_boxes (load_state s) @ [ob])))) \<and>
     dom (items (load_state s)) =
       item_id ` (\<Union>b \<in> set (closed_boxes (load_state s) @ [ob]). set (box_items b))
       \<union> set (not_approved_items_ids (load_state s))"
proof -
  let ?s0 = "s\<lparr>items := Map.empty, approved_items_ids := [], not_approved_items_ids := []\<rparr>"
  let ?cands = "filter (\<lambda>b. \<not> closed b) boxes"
  let ?ob = "last (sort_key box_id ?cands)"
  let ?cbs = "sort_key box_id (filter closed boxes)"
  have ne: "?cands \<noteq> []" using two by auto
  then have bne: "boxes \<noteq> []" by auto
  have rb0: "read_boxes (box_dir ?s0) (next_addr ?s0) (sort (map fst (box_dir ?s0))) = (boxes, a)"
    using rb by simp
  have lb: "load_boxes ?s0 = ((?cbs, Some ?ob), ?s0\<lparr>next_addr := a\<rparr>)"
    unfolding load_boxes_cases[OF rb0] using ne bne by simp
  note ch = load_state_char[OF lb]
  from last_sort_key_max[OF ne, of box_id]
  have ob: "?ob \<in> set boxes" "\<not> closed ?ob" "\<forall>b \<in> set boxes. \<not> closed b \<longrightarrow> box_id b \<le> box_id ?ob"
    by auto
  have dm: "dom (items (load_state s)) =
       item_id ` (\<Union>b \<in> set (?cbs @ [?ob]). set (box_items b)) \<union> set (not_approved_items_ids (load_state s))"
    unfolding ch(1) ch(3) by (simp add: index_of_append dom_index_of image_Un Un_commute)
  have "open_box (load_state s) = Some ?ob" by (rule ch(5))
  moreover have "closed_boxes (load_state s) = ?cbs" by (rule ch(4))
  moreover have "\<forall>b \<in> set boxes. \<not> closed b \<longrightarrow> b \<notin> set ?cbs" by simp
  moreover have "box_dir (load_state s) = box_dir s" unfolding ch(6) by simp
  moreover have "approved_items_ids (load_state s) =
       map item_id (filter approved (concat (map box_items (?cbs @ [?ob]))))" by (rule ch(2))
  ultimately show ?thesis using ob dm by (intro exI[of _ ?ob]) simp
qed

theorem demoted_open_boxes_dropped_witness:
  "map_option box_id (open_box (load_state (initial_state two_open_dir None))) = Some 2
   \<and> closed_boxes (load_state (initial_state two_open_dir None)) = []
   \<and> box_dir (load_state (initial_state two_open_dir None)) = two_open_dir"
proof -
  define b1 where "b1 = \<lparr>box_id = 1, closed = False, box_items = [ex_item\<lparr>addr := 0\<rparr>]\<rparr>"
  define b2 where "b2 = \<lparr>box_id = 2, closed = False, box_items = []\<rparr>"
  define st where "st = initial_state two_open_dir None"
  have rb: "read_boxes (box_dir st) (next_addr st) (sort (map fst (box_dir st))) = ([b1, b2], 1)"
    using read_two_open by (simp add: initial_state_def st_def b1_def b2_def)
  have b: "box_id b1 = 1" "box_id b2 = 2" "\<not> closed b1" "\<not> closed b2"
    by (simp_all add: b1_def b2_def)
  have two: "2 \<le> length (filter (\<lambda>b. \<not> closed b) [b1, b2])" using b by simp
  from demoted_open_boxes_dropped [OF rb two]
  obtain ob where ob: "open_box (load_state st) = Some ob" "ob \<in> set [b1, b2]"
      "\<forall>b \<in> set [b1, b2]. \<not> closed b \<longrightarrow> box_id b \<le> box_id ob"
      "closed_boxes (load_state st) = sort_key box_id (filter closed [b1, b2])"
      "box_dir (load_state st) = box_dir st"
    by blast
  from ob(2,3) b have "box_id ob = 2" by auto
  moreover have "closed_boxes (load_state st) = []" using ob(4) b by simp
  moreover have "box_dir (load_state st) = two_open_dir" using ob(5) by (simp add: st_def initial_state_def)
  ultimately show ?thesis using ob(1) by (simp add: st_def)
qed

text \<open>
  Claim C4 as stated fails on two open records, box 1 holding the approved item P1 and
  box 2 empty: box 2 becomes the open box, and P1 is then in neither the item dictionary
  nor the approved order, and box 1 is not among the closed boxes.
\<close>

theorem demoted_open_boxes_counterexample:
  "fst (read_boxes two_open_dir 0 (sort (map fst two_open_dir))) =
     [\<lparr>box_id = 1, closed = False, box_items = [ex_item\<lparr>addr := 0\<rparr>]\<rparr>,
      \<lparr>box_id = 2, closed = False, box_items = []\<rparr>]
   \<and> approved ex_item
   \<and> items (load_state (initial_state two_open_dir None)) (item_id ex_item) = None
   \<and> approved_items_ids (load_state (initial_state two_open_dir None)) = []
   \<and> closed_boxes (load_state (initial_state two_open_dir None)) = []"
  by code_simp

subsection \<open>Keeping the invariant\<close>

lemma strong_imp_system:
  assumes "strong_invariant s"
  shows "system_invariant s"
proof -
  let ?m = "items s" and ?ap = "approved_items_ids s" and ?rj = "not_approved_items_ids s"
  let ?L = "map box_items (all_boxes s)"
  from assms have c: "consistent ?m ?ap ?rj ?L" by (simp add: strong_invariant_def)
  have hold: "boxes_holding s x = length (filter (\<lambda>l. x \<in> set l) ?L)" for x
    by (simp add: boxes_holding_def length_filter_map comp_def)
  have a: "case ?m i of None \<Rightarrow> False | Some it \<Rightarrow> approved it \<and> boxes_holding s it = 1"
    if "i \<in> set ?ap" for i
  proof -
    from c that obtain x where "?m i = Some x" "approved x" "length (filter (\<lambda>l. x \<in> set l) ?L) = 1"
      unfolding consistent_def by blast
    then show ?thesis by (simp add: hold)
  qed
  have b: "case ?m i of None \<Rightarrow> False | Some it \<Rightarrow> \<not> approved it" if "i \<in> set ?rj" for i
  proof -
    from c that obtain x where "?m i = Some x" "\<not> approved x"
      unfolding consistent_def by blast
    then show ?thesis by simp
  qed
  have d: "?m i \<noteq> Some it"
    if "b \<in> set (all_boxes s)" "it \<in> set (box_items b)" "i \<in> set ?rj" for b it i
  proof
    assume eq: "?m i = Some it"
    from that(1,2) have "it \<in> set (concat ?L)" by auto
    with c have "approved it" unfolding consistent_def by blast
    moreover from c that(3) eq have "\<not> approved it" unfolding consistent_def by fastforce
    ultimately show False by contradiction
  qed
  show ?thesis unfolding system_invariant_def using a b d by blast
qed

lemma consistentD:
  assumes "consistent m ap rj L"
  shows "\<And>i. i \<in> set ap \<Longrightarrow> \<exists>x. m i = Some x \<and> approved x \<and> length (filter (\<lambda>l. x \<in> set l) L) = 1"
    and "\<And>i. i \<in> set rj \<Longrightarrow> \<exists>x. m i = Some x \<and> \<not> approved x"
    and "distinct ap" and "distinct rj" and "distinct (concat L)"
    and "\<And>x. x \<in> set (concat L) \<Longrightarrow> m (item_id x) = Some x \<and> approved x"
    and "\<And>i x. m i = Some x \<Longrightarrow> item_id x = i"
  using assms unfolding consistent_def by blast+

lemma consistentI:
  assumes "\<And>i. i \<in> set ap \<Longrightarrow> \<exists>x. m i = Some x \<and> approved x \<and> length (filter (\<lambda>l. x \<in> set l) L) = 1"
    and "\<And>i. i \<in> set rj \<Longrightarrow> \<exists>x. m i = Some x \<and> \<not> approved x"
    and "distinct ap" and "distinct rj" and "distinct (concat L)"
    and "\<And>x. x \<in> set (concat L) \<Longrightarrow> m (item_id x) = Some x \<and> approved x"
    and "\<And>i x. m i = Some x \<Longrightarrow> item_id x = i"
  shows "consistent m ap rj L"
  using assms unfolding consistent_def by blast

lemma holding_on_shelf:
  assumes "distinct (concat L)" and "x \<in> set (concat L)"
  shows "length (filter (\<lambda>l. x \<in> set l) L) = 1"
  using assms
proof (induction L)
  case Nil
  then show ?case by simp
next
  case (Cons l L)
  show ?case
  proof (cases "x \<in> set l")
    case True
    with Cons.prems(1) have "\<forall>l' \<in> set L. x \<notin> set l'" by auto
    then have "filter (\<lambda>l. x \<in> set l) L = []" by (simp add: filter_empty_conv)
    with True show ?thesis by simp
  next
    case False
    with Cons show ?thesis by auto
  qed
qed

lemma consistent_remove_shelved:
  assumes c: "consistent m ap rj (P @ l # Q)" and mi: "m i = Some x" and xl: "x \<in> set l"
  shows "consistent (m(i := None)) (remove1 i ap) rj (P @ remove1 x l # Q)"
proof (rule consistentI)
  note d = consistentD[OF c]
  have idx: "item_id x = i" using d(7) mi by simp
  have dl: "distinct l" using d(5) by simp
  have sub: "set (concat (P @ remove1 x l # Q)) = set (concat (P @ l # Q)) - {x}"
    using d(5) xl dl by (auto simp: set_remove1_eq)
  have ax: "approved x" using d(6)[of x] xl by simp
  show "distinct (remove1 i ap)" using d(3) by simp
  show "distinct rj" by (rule d(4))
  show "distinct (concat (P @ remove1 x l # Q))"
    using d(5) by (auto simp: distinct_remove1 dest: notin_set_remove1)
  show "\<exists>x'. (m(i := None)) i' = Some x' \<and> approved x' \<and>
          length (filter (\<lambda>l. x' \<in> set l) (P @ remove1 x l # Q)) = 1" if "i' \<in> set (remove1 i ap)" for i'
  proof -
    from that d(3) have ne: "i' \<noteq> i" and mem: "i' \<in> set ap" by auto
    from d(1)[OF mem] obtain x' where x': "m i' = Some x'" "approved x'"
        "length (filter (\<lambda>l. x' \<in> set l) (P @ l # Q)) = 1" by blast
    have "x' \<noteq> x" using d(7)[OF x'(1)] idx ne by auto
    then have "(x' \<in> set (remove1 x l)) = (x' \<in> set l)" by simp
    then have "length (filter (\<lambda>l. x' \<in> set l) (P @ remove1 x l # Q)) =
        length (filter (\<lambda>l. x' \<in> set l) (P @ l # Q))" by simp
    with x' ne show ?thesis by simp
  qed
  show "\<exists>y. (m(i := None)) i' = Some y \<and> \<not> approved y" if "i' \<in> set rj" for i'
  proof -
    from d(2)[OF that] obtain y where y: "m i' = Some y" "\<not> approved y" by blast
    with mi ax have "i' \<noteq> i" by auto
    with y show ?thesis by simp
  qed
  show "(m(i := None)) (item_id y) = Some y \<and> approved y" if "y \<in> set (concat (P @ remove1 x l # Q))" for y
  proof -
    from that sub have y: "y \<in> set (concat (P @ l # Q))" "y \<noteq> x" by auto
    from d(6)[OF y(1)] have my: "m (item_id y) = Some y" "approved y" by auto
    with mi y(2) have "item_id y \<noteq> i" by auto
    with my show ?thesis by simp
  qed
  show "item_id y = i'" if "(m(i := None)) i' = Some y" for i' y
    using that d(7)[of i' y] by (auto split: if_splits)
qed

lemma consistent_remove_unshelved:
  assumes c: "consistent m ap rj L" and mi: "m i = Some x" and ax: "approved x"
    and nx: "x \<notin> set (concat L)"
  shows "consistent (m(i := None)) (remove1 i ap) rj L"
proof (rule consistentI)
  note d = consistentD[OF c]
  have nia: "i \<notin> set ap"
  proof
    assume "i \<in> set ap"
    from d(1)[OF this] mi have "length (filter (\<lambda>l. x \<in> set l) L) = 1" by auto
    then have "filter (\<lambda>l. x \<in> set l) L \<noteq> []" by auto
    then obtain l where "l \<in> set L" "x \<in> set l" by (auto simp: filter_empty_conv)
    with nx show False by auto
  qed
  then have r: "remove1 i ap = ap" by (simp add: remove1_idem)
  show "distinct (remove1 i ap)" using d(3) by simp
  show "distinct rj" by (rule d(4))
  show "distinct (concat L)" by (rule d(5))
  show "\<exists>x'. (m(i := None)) i' = Some x' \<and> approved x' \<and>
          length (filter (\<lambda>l. x' \<in> set l) L) = 1" if "i' \<in> set (remove1 i ap)" for i'
  proof -
    from that r nia have "i' \<in> set ap" "i' \<noteq> i" by auto
    with d(1)[of i'] show ?thesis by simp
  qed
  show "\<exists>y. (m(i := None)) i' = Some y \<and> \<not> approved y" if "i' \<in> set rj" for i'
  proof -
    from d(2)[OF that] obtain y where y: "m i' = Some y" "\<not> approved y" by blast
    with mi ax have "i' \<noteq> i" by auto
    with y show ?thesis by simp
  qed
  show "(m(i := None)) (item_id y) = Some y \<and> approved y" if "y \<in> set (concat L)" for y
  proof -
    from d(6)[OF that] have my: "m (item_id y) = Some y" "approved y" by auto
    with mi nx that have "item_id y \<noteq> i" by auto
    with my show ?thesis by simp
  qed
  show "item_id y = i'" if "(m(i := None)) i' = Some y" for i' y
    using that d(7)[of i' y] by (auto split: if_splits)
qed

lemma consistent_remove_rejected:
  assumes c: "consistent m ap rj L" and mi: "m i = Some x" and nax: "\<not> approved x"
  shows "consistent (m(i := None)) ap (remove1 i rj) L"
proof (rule consistentI)
  note d = consistentD[OF c]
  show "distinct ap" by (rule d(3))
  show "distinct (remove1 i rj)" using d(4) by simp
  show "distinct (concat L)" by (rule d(5))
  show "\<exists>x'. (m(i := None)) i' = Some x' \<and> approved x' \<and>
          length (filter (\<lambda>l. x' \<in> set l) L) = 1" if "i' \<in> set ap" for i'
  proof -
    from d(1)[OF that] obtain x' where x': "m i' = Some x'" "approved x'"
        "length (filter (\<lambda>l. x' \<in> set l) L) = 1" by blast
    with mi nax have "i' \<noteq> i" by auto
    with x' show ?thesis by simp
  qed
  show "\<exists>y. (m(i := None)) i' = Some y \<and> \<not> approved y" if "i' \<in> set (remove1 i rj)" for i'
  proof -
    from that d(4) have "i' \<noteq> i" "i' \<in> set rj" by auto
    with d(2)[of i'] show ?thesis by simp
  qed
  show "(m(i := None)) (item_id y) = Some y \<and> approved y" if "y \<in> set (concat L)" for y
  proof -
    from d(6)[OF that] have my: "m (item_id y) = Some y" "approved y" by auto
    with mi nax have "item_id y \<noteq> i" by auto
    with my show ?thesis by simp
  qed
  show "item_id y = i'" if "(m(i := None)) i' = Some y" for i' y
    using that d(7)[of i' y] by (auto split: if_splits)
qed

lemma consistent_add_approved:
  assumes c: "consistent m ap rj (C @ [l])" and mi: "m i = None" and idx: "item_id x = i"
    and ax: "approved x" and tl: "T = [] \<or> T = [[]]"
  shows "consistent (m(i \<mapsto> x)) (ap @ [i]) rj (C @ [l @ [x]] @ T)"
proof (rule consistentI)
  note d = consistentD[OF c]
  have nx: "x \<notin> set (concat (C @ [l]))" using d(6)[of x] mi idx by auto
  have nia: "i \<notin> set ap" using d(1)[of i] mi by auto
  have nir: "i \<notin> set rj" using d(2)[of i] mi by auto
  have cT: "concat T = []" "filter (\<lambda>l. y \<in> set l) T = []" for y using tl by auto
  show "distinct (ap @ [i])" using d(3) nia by simp
  show "distinct rj" by (rule d(4))
  show "distinct (concat (C @ [l @ [x]] @ T))" using d(5) nx tl by auto
  show "\<exists>x'. (m(i \<mapsto> x)) i' = Some x' \<and> approved x' \<and>
          length (filter (\<lambda>l. x' \<in> set l) (C @ [l @ [x]] @ T)) = 1" if "i' \<in> set (ap @ [i])" for i'
  proof (cases "i' = i")
    case True
    have "filter (\<lambda>l. x \<in> set l) C = []" using nx by (auto simp: filter_empty_conv)
    with True ax cT show ?thesis by simp
  next
    case False
    with that have "i' \<in> set ap" by simp
    from d(1)[OF this] obtain x' where x': "m i' = Some x'" "approved x'"
        "length (filter (\<lambda>l. x' \<in> set l) (C @ [l])) = 1" by blast
    have "x' \<noteq> x" using d(7)[OF x'(1)] idx False by auto
    then have "length (filter (\<lambda>l. x' \<in> set l) (C @ [l @ [x]] @ T)) =
        length (filter (\<lambda>l. x' \<in> set l) (C @ [l]))" using cT by simp
    with x' False show ?thesis by simp
  qed
  show "\<exists>y. (m(i \<mapsto> x)) i' = Some y \<and> \<not> approved y" if "i' \<in> set rj" for i'
    using d(2)[OF that] nir that by auto
  show "(m(i \<mapsto> x)) (item_id y) = Some y \<and> approved y" if "y \<in> set (concat (C @ [l @ [x]] @ T))" for y
  proof (cases "y = x")
    case True
    with idx ax show ?thesis by simp
  next
    case False
    with that cT have y: "y \<in> set (concat (C @ [l]))" by auto
    from d(6)[OF y] mi have "item_id y \<noteq> i" by auto
    with d(6)[OF y] show ?thesis by simp
  qed
  show "item_id y = i'" if "(m(i \<mapsto> x)) i' = Some y" for i' y
    using that d(7)[of i' y] idx by (auto split: if_splits)
qed

lemma consistent_add_rejected:
  assumes c: "consistent m ap rj L" and mi: "m i = None" and idx: "item_id x = i"
    and nax: "\<not> approved x"
  shows "consistent (m(i \<mapsto> x)) ap (rj @ [i]) L"
proof (rule consistentI)
  note d = consistentD[OF c]
  have nir: "i \<notin> set rj" using d(2)[of i] mi by auto
  show "distinct ap" by (rule d(3))
  show "distinct (rj @ [i])" using d(4) nir by simp
  show "distinct (concat L)" by (rule d(5))
  show "\<exists>x'. (m(i \<mapsto> x)) i' = Some x' \<and> approved x' \<and>
          length (filter (\<lambda>l. x' \<in> set l) L) = 1" if "i' \<in> set ap" for i'
    using d(1)[OF that] mi by auto
  show "\<exists>y. (m(i \<mapsto> x)) i' = Some y \<and> \<not> approved y" if "i' \<in> set (rj @ [i])" for i'
    using d(2)[of i'] that nax mi by auto
  show "(m(i \<mapsto> x)) (item_id y) = Some y \<and> approved y" if "y \<in> set (concat L)" for y
    using d(6)[OF that] mi by auto
  show "item_id y = i'" if "(m(i \<mapsto> x)) i' = Some y" for i' y
    using that d(7)[of i' y] idx by (auto split: if_splits)
qed

lemma store_item_effect:
  assumes "open_box s = Some ob"
  shows "\<exists>T s'. store_item it s = Inr s' \<and> (T = [] \<or> T = [[]]) \<and>
     map box_items (all_boxes s') = map box_items (closed_boxes s) @ [box_items ob @ [it]] @ T \<and>
     open_box s' \<noteq> None \<and> items s' = items s \<and>
     approved_items_ids s' = approved_items_ids s \<and>
     not_approved_items_ids s' = not_approved_items_ids s"
proof (cases "full (ob\<lparr>box_items := box_items ob @ [it]\<rparr>)")
  case True
  with assms show ?thesis
    by (intro exI[of _ "[[]]"])
       (simp add: store_item_def Let_def all_boxes_def Box_init_def or_empty_def)
next
  case False
  with assms show ?thesis
    by (intro exI[of _ "[]"])
       (simp add: store_item_def Let_def all_boxes_def)
qed

lemma rejects_payload_ok:
  "\<forall>p \<in> set pids. m p \<noteq> None \<Longrightarrow> \<exists>ds. rejects_payload m pids = Inr ds"
  by (induction pids) (auto simp: subscript_def)

lemma save_rejects_effect:
  assumes "\<forall>p \<in> set (not_approved_items_ids s). items s p \<noteq> None"
  shows "\<exists>ds. save_rejects s = Inr (s\<lparr>rejects_file := Some (Json ds)\<rparr>)"
  using rejects_payload_ok[OF assms] by (auto simp: save_rejects_def)

lemma remove_from_closed_split:
  "((\<forall>b \<in> set bs. x \<notin> set (box_items b)) \<and> remove_from_closed x bs = (bs, None)) \<or>
   (\<exists>pre b post. bs = pre @ b # post \<and> (\<forall>p \<in> set pre. x \<notin> set (box_items p)) \<and>
      x \<in> set (box_items b) \<and>
      remove_from_closed x bs =
        (pre @ b\<lparr>box_items := remove1 x (box_items b)\<rparr> # post,
         Some (b\<lparr>box_items := remove1 x (box_items b)\<rparr>)))"
proof (induction bs)
  case Nil
  then show ?case by simp
next
  case (Cons c bs)
  show ?case
  proof (cases "x \<in> set (box_items c)")
    case True
    have "c # bs = [] @ c # bs \<and> (\<forall>p \<in> set []. x \<notin> set (box_items p)) \<and> x \<in> set (box_items c) \<and>
      remove_from_closed x (c # bs) =
        ([] @ c\<lparr>box_items := remove1 x (box_items c)\<rparr> # bs,
         Some (c\<lparr>box_items := remove1 x (box_items c)\<rparr>))"
      using True by (simp add: Let_def)
    then show ?thesis by blast
  next
    case False
    from Cons.IH show ?thesis
    proof (elim disjE exE conjE)
      assume "\<forall>b \<in> set bs. x \<notin> set (box_items b)" "remove_from_closed x bs = (bs, None)"
      with False show ?thesis by simp
    next
      fix pre b post
      assume h: "bs = pre @ b # post" "\<forall>p \<in> set pre. x \<notin> set (box_items p)" "x \<in> set (box_items b)"
        "remove_from_closed x bs =
          (pre @ b\<lparr>box_items := remove1 x (box_items b)\<rparr> # post,
           Some (b\<lparr>box_items := remove1 x (box_items b)\<rparr>))"
      have "c # bs = (c # pre) @ b # post \<and> (\<forall>p \<in> set (c # pre). x \<notin> set (box_items p)) \<and>
        x \<in> set (box_items b) \<and>
        remove_from_closed x (c # bs) =
          ((c # pre) @ b\<lparr>box_items := remove1 x (box_items b)\<rparr> # post,
           Some (b\<lparr>box_items := remove1 x (box_items b)\<rparr>))"
        using h False by simp
      then show ?thesis by blast
    qed
  qed
qed

lemma remove_approved_effect:
  assumes mi: "items s (py_strip r) = Some x" and ax: "approved x" and ob: "open_box s = Some ob"
  shows "\<exists>s'. remove_item r s = Inr (Removed, s') \<and>
     items s' = (items s)(py_strip r := None) \<and>
     approved_items_ids s' = remove1 (py_strip r) (approved_items_ids s) \<and>
     not_approved_items_ids s' = not_approved_items_ids s \<and> open_box s' \<noteq> None \<and>
     ((x \<notin> set (concat (map box_items (all_boxes s))) \<and>
       map box_items (all_boxes s') = map box_items (all_boxes s)) \<or>
      (\<exists>P l Q. map box_items (all_boxes s) = P @ l # Q \<and> x \<in> set l \<and>
         map box_items (all_boxes s') = P @ remove1 x l # Q))"
proof (cases "x \<in> set (box_items ob)")
  case True
  let ?ob' = "ob\<lparr>box_items := remove1 x (box_items ob)\<rparr>"
  let ?s1 = "save_box ?ob' (s\<lparr>open_box := Some ?ob'\<rparr>)"
  let ?s' = "?s1\<lparr>approved_items_ids := remove1 (py_strip r) (approved_items_ids s),
               items := (items s)(py_strip r := None)\<rparr>"
  have r: "remove_item r s = Inr (Removed, ?s')"
    using mi ax ob True by (auto simp: remove_item_def Let_def remove1_idem)
  have a: "map box_items (all_boxes s) = map box_items (closed_boxes s) @ box_items ob # []"
    using ob by (simp add: all_boxes_def)
  have b: "map box_items (all_boxes ?s') = map box_items (closed_boxes s) @ remove1 x (box_items ob) # []"
    by (simp add: all_boxes_def)
  show ?thesis using r a b True by (intro exI[of _ ?s']) auto
next
  case False
  from remove_from_closed_split[of "closed_boxes s" x] show ?thesis
  proof (elim disjE exE conjE)
    assume h: "\<forall>b \<in> set (closed_boxes s). x \<notin> set (box_items b)"
      "remove_from_closed x (closed_boxes s) = (closed_boxes s, None)"
    let ?s' = "s\<lparr>approved_items_ids := remove1 (py_strip r) (approved_items_ids s),
               items := (items s)(py_strip r := None)\<rparr>"
    have r: "remove_item r s = Inr (Removed, ?s')"
      using mi ax ob False h by (auto simp: remove_item_def Let_def remove1_idem)
    have "x \<notin> set (concat (map box_items (all_boxes s)))"
      using h(1) False ob by (auto simp: all_boxes_def)
    moreover have "map box_items (all_boxes ?s') = map box_items (all_boxes s)"
      by (simp add: all_boxes_def)
    ultimately show ?thesis using r ob by (intro exI[of _ ?s']) simp
  next
    fix pre b post
    assume h: "closed_boxes s = pre @ b # post" "\<forall>p \<in> set pre. x \<notin> set (box_items p)"
      "x \<in> set (box_items b)"
      "remove_from_closed x (closed_boxes s) =
        (pre @ b\<lparr>box_items := remove1 x (box_items b)\<rparr> # post,
         Some (b\<lparr>box_items := remove1 x (box_items b)\<rparr>))"
    let ?b' = "b\<lparr>box_items := remove1 x (box_items b)\<rparr>"
    let ?s1 = "save_box ?b' (s\<lparr>closed_boxes := pre @ ?b' # post\<rparr>)"
    let ?s' = "?s1\<lparr>approved_items_ids := remove1 (py_strip r) (approved_items_ids s),
               items := (items s)(py_strip r := None)\<rparr>"
    have r: "remove_item r s = Inr (Removed, ?s')"
      using mi ax ob False h(4) by (auto simp: remove_item_def Let_def remove1_idem)
    have a: "map box_items (all_boxes s) =
        map box_items pre @ box_items b # (map box_items post @ [box_items ob])"
      using ob h(1) by (simp add: all_boxes_def)
    have b: "map box_items (all_boxes ?s') =
        map box_items pre @ remove1 x (box_items b) # (map box_items post @ [box_items ob])"
      using ob by (simp add: all_boxes_def)
    show ?thesis using r a b h(3) ob by (intro exI[of _ ?s']) auto
  qed
qed

lemma remove_rejected_effect:
  assumes mi: "items s (py_strip r) = Some x" and nax: "\<not> approved x"
    and res: "\<forall>p \<in> set (not_approved_items_ids s). items s p \<noteq> None"
  shows "\<exists>s'. remove_item r s = Inr (Removed, s') \<and>
     items s' = (items s)(py_strip r := None) \<and>
     approved_items_ids s' = approved_items_ids s \<and>
     not_approved_items_ids s' = remove1 (py_strip r) (not_approved_items_ids s) \<and>
     open_box s' = open_box s \<and> all_boxes s' = all_boxes s"
proof (cases "py_strip r \<in> set (not_approved_items_ids s)")
  case True
  let ?s1 = "s\<lparr>not_approved_items_ids := remove1 (py_strip r) (not_approved_items_ids s)\<rparr>"
  have "\<forall>p \<in> set (not_approved_items_ids ?s1). items ?s1 p \<noteq> None"
    using res by (auto dest: notin_set_remove1)
  from save_rejects_effect[OF this] obtain ds where
    sr: "save_rejects ?s1 = Inr (?s1\<lparr>rejects_file := Some (Json ds)\<rparr>)" by blast
  show ?thesis using mi nax True sr
    by (simp add: remove_item_def Let_def all_boxes_def)
next
  case False
  then show ?thesis using mi nax
    by (simp add: remove_item_def Let_def all_boxes_def remove1_idem)
qed

lemma item_id_new: "item_id (evaluate_item (Item_init a i w c l ap fr)) = i"
  by (simp add: evaluate_item_def Item_init_def Let_def)

lemma strong_all_boxes:
  assumes "strong_invariant s"
  obtains ob where "open_box s = Some ob"
    and "map box_items (all_boxes s) = map box_items (closed_boxes s) @ [box_items ob]"
    and "consistent (items s) (approved_items_ids s) (not_approved_items_ids s)
           (map box_items (closed_boxes s) @ [box_items ob])"
proof -
  from assms obtain ob where ob: "open_box s = Some ob" by (auto simp: strong_invariant_def)
  then have a: "map box_items (all_boxes s) = map box_items (closed_boxes s) @ [box_items ob]"
    by (simp add: all_boxes_def)
  with assms have "consistent (items s) (approved_items_ids s) (not_approved_items_ids s)
           (map box_items (closed_boxes s) @ [box_items ob])"
    by (simp add: strong_invariant_def)
  with ob a show ?thesis by (rule that)
qed

lemma store_keeps_invariant:
  assumes inv: "strong_invariant s" and ax: "approved it" and new: "items s (item_id it) = None"
  shows "\<exists>s'. store_item it (s\<lparr>next_addr := n, items := (items s)(item_id it \<mapsto> it),
                  approved_items_ids := approved_items_ids s @ [item_id it]\<rparr>) = Inr s'
           \<and> strong_invariant s'"
proof -
  from inv obtain ob where ob: "open_box s = Some ob"
    and c: "consistent (items s) (approved_items_ids s) (not_approved_items_ids s)
           (map box_items (closed_boxes s) @ [box_items ob])"
    by (rule strong_all_boxes)
  let ?s1 = "s\<lparr>next_addr := n, items := (items s)(item_id it \<mapsto> it),
                  approved_items_ids := approved_items_ids s @ [item_id it]\<rparr>"
  have "open_box ?s1 = Some ob" using ob by simp
  from store_item_effect[OF this, of it] obtain T s' where
    st: "store_item it ?s1 = Inr s'" "T = [] \<or> T = [[]]"
      "map box_items (all_boxes s') = map box_items (closed_boxes ?s1) @ [box_items ob @ [it]] @ T"
      "open_box s' \<noteq> None" "items s' = items ?s1"
      "approved_items_ids s' = approved_items_ids ?s1"
      "not_approved_items_ids s' = not_approved_items_ids ?s1"
    by blast
  have "consistent ((items s)(item_id it \<mapsto> it)) (approved_items_ids s @ [item_id it])
          (not_approved_items_ids s) (map box_items (closed_boxes s) @ [box_items ob @ [it]] @ T)"
    using c new _ ax st(2) by (rule consistent_add_approved) simp
  then have "strong_invariant s'"
    using st by (simp add: strong_invariant_def)
  with st(1) show ?thesis by blast
qed

lemma register_keeps_invariant:
  assumes inv: "strong_invariant s"
  shows "\<exists>m s'. register_item r w c l s = Inr (m, s') \<and> strong_invariant s'"
  using register_item_refused_or_new[of r w c l s]
proof (elim disjE exE conjE)
  fix m assume "register_item r w c l s = Inr (m, s)"
  with inv show ?thesis by blast
next
  fix w' l'
  assume new: "w = Some w'" "l = Some l'" "py_strip r \<noteq> []" "items s (py_strip r) = None"
  define i where "i = py_strip r"
  define it where "it = evaluate_item (Item_init (next_addr s) i w' (py_strip c) l' False None)"
  have idx: "item_id it = i" unfolding it_def by (rule item_id_new)
  define s1 where "s1 = s\<lparr>next_addr := Suc (next_addr s), items := (items s)(i \<mapsto> it)\<rparr>"
  define sa where "sa = s1\<lparr>approved_items_ids := approved_items_ids s @ [i]\<rparr>"
  define sr where "sr = s1\<lparr>not_approved_items_ids := not_approved_items_ids s @ [i]\<rparr>"
  have eq: "register_item r w c l s =
     (if approved it
      then (case store_item it sa of Inl e \<Rightarrow> Inl e | Inr s' \<Rightarrow> Inr (Approved, s'))
      else (case save_rejects sr of Inl e \<Rightarrow> Inl e | Inr s' \<Rightarrow> Inr (Rejected, s')))"
    unfolding new(1,2) register_item_new[OF new(3,4)] it_def s1_def sa_def sr_def Let_def i_def ..
  have mi: "items s (item_id it) = None" using new(4) idx i_def by simp
  show ?thesis
  proof (cases "approved it")
    case True
    from store_keeps_invariant[OF inv True mi, of "Suc (next_addr s)"]
    obtain s' where "store_item it sa = Inr s'" "strong_invariant s'"
      unfolding sa_def s1_def idx by blast
    with eq True show ?thesis by simp
  next
    case False
    from inv obtain ob where ob: "open_box s = Some ob"
      and ab: "map box_items (all_boxes s) = map box_items (closed_boxes s) @ [box_items ob]"
      and c: "consistent (items s) (approved_items_ids s) (not_approved_items_ids s)
           (map box_items (closed_boxes s) @ [box_items ob])"
      by (rule strong_all_boxes)
    have c': "consistent ((items s)(i \<mapsto> it)) (approved_items_ids s) (not_approved_items_ids s @ [i])
           (map box_items (closed_boxes s) @ [box_items ob])"
      using c _ idx False by (rule consistent_add_rejected) (simp add: new(4) i_def)
    have "\<forall>p \<in> set (not_approved_items_ids sr). items sr p \<noteq> None"
    proof
      fix p assume "p \<in> set (not_approved_items_ids sr)"
      then have "p \<in> set (not_approved_items_ids s @ [i])" by (simp add: sr_def s1_def)
      from consistentD(2)[OF c' this] show "items sr p \<noteq> None"
        by (auto simp: sr_def s1_def)
    qed
    from save_rejects_effect[OF this] obtain ds where
      sv: "save_rejects sr = Inr (sr\<lparr>rejects_file := Some (Json ds)\<rparr>)" by blast
    have "strong_invariant (sr\<lparr>rejects_file := Some (Json ds)\<rparr>)"
      using c' ob by (simp add: strong_invariant_def sr_def s1_def all_boxes_def)
    with eq False sv show ?thesis by simp
  qed
qed

lemma remove_keeps_invariant:
  assumes inv: "strong_invariant s"
  shows "\<exists>m s'. remove_item r s = Inr (m, s') \<and> strong_invariant s'"
proof (cases "items s (py_strip r)")
  case None
  then have "remove_item r s = Inr (NotFound, s)" by (simp add: remove_item_def)
  with inv show ?thesis by blast
next
  case (Some x)
  from inv obtain ob where ob: "open_box s = Some ob"
    and ab: "map box_items (all_boxes s) = map box_items (closed_boxes s) @ [box_items ob]"
    and c0: "consistent (items s) (approved_items_ids s) (not_approved_items_ids s)
           (map box_items (closed_boxes s) @ [box_items ob])"
    by (rule strong_all_boxes)
  from c0 ab have c: "consistent (items s) (approved_items_ids s) (not_approved_items_ids s)
           (map box_items (all_boxes s))" by simp
  show ?thesis
  proof (cases "approved x")
    case True
    from remove_approved_effect[OF Some True ob] obtain s' where
      r: "remove_item r s = Inr (Removed, s')"
        "items s' = (items s)(py_strip r := None)"
        "approved_items_ids s' = remove1 (py_strip r) (approved_items_ids s)"
        "not_approved_items_ids s' = not_approved_items_ids s" "open_box s' \<noteq> None"
      and sh: "(x \<notin> set (concat (map box_items (all_boxes s))) \<and>
                map box_items (all_boxes s') = map box_items (all_boxes s)) \<or>
               (\<exists>P l Q. map box_items (all_boxes s) = P @ l # Q \<and> x \<in> set l \<and>
                  map box_items (all_boxes s') = P @ remove1 x l # Q)"
      by blast
    from sh have "consistent (items s') (approved_items_ids s') (not_approved_items_ids s')
        (map box_items (all_boxes s'))"
    proof (elim disjE exE conjE)
      assume "x \<notin> set (concat (map box_items (all_boxes s)))"
        "map box_items (all_boxes s') = map box_items (all_boxes s)"
      with consistent_remove_unshelved[OF c Some True] r show ?thesis by simp
    next
      fix P l Q
      assume h: "map box_items (all_boxes s) = P @ l # Q" "x \<in> set l"
        "map box_items (all_boxes s') = P @ remove1 x l # Q"
      from c h(1) have "consistent (items s) (approved_items_ids s) (not_approved_items_ids s) (P @ l # Q)"
        by simp
      from consistent_remove_shelved[OF this Some h(2)] r h(3) show ?thesis by simp
    qed
    with r show ?thesis by (auto simp: strong_invariant_def)
  next
    case False
    have res: "\<forall>p \<in> set (not_approved_items_ids s). items s p \<noteq> None"
      using consistentD(2)[OF c] by auto
    from remove_rejected_effect[OF Some False res] obtain s' where
      r: "remove_item r s = Inr (Removed, s')"
        "items s' = (items s)(py_strip r := None)"
        "approved_items_ids s' = approved_items_ids s"
        "not_approved_items_ids s' = remove1 (py_strip r) (not_approved_items_ids s)"
        "open_box s' = open_box s" "all_boxes s' = all_boxes s"
      by blast
    from consistent_remove_rejected[OF c Some False] r ob
    have "strong_invariant s'" by (simp add: strong_invariant_def)
    with r(1) show ?thesis by blast
  qed
qed

text \<open>
  Claim C7, amended.  Take a state with an open box that satisfies the invariant of the
  specification together with the uniqueness it rests on (\<open>strong_invariant\<close>).  Then a
  registration, whatever is typed, and a removal, of any id, both return without an
  exception in a state that satisfies the same again, and so the three clauses of the
  specification.  The same holds for \<open>store_item\<close> as registration calls it: on an
  approved item with a new id that has just been entered in the dictionary and in the
  approved order.
\<close>

theorem operations_keep_invariant:
  assumes "strong_invariant s"
  shows "(\<exists>m s'. register_item r w c l s = Inr (m, s') \<and> strong_invariant s' \<and> system_invariant s')
     \<and> (\<exists>m s'. remove_item r' s = Inr (m, s') \<and> strong_invariant s' \<and> system_invariant s')
     \<and> (approved it \<and> items s (item_id it) = None \<longrightarrow>
          (\<exists>s'. store_item it (s\<lparr>items := (items s)(item_id it \<mapsto> it),
                     approved_items_ids := approved_items_ids s @ [item_id it]\<rparr>) = Inr s'
                \<and> strong_invariant s' \<and> system_invariant s'))"
proof (intro conjI impI)
  show "\<exists>m s'. register_item r w c l s = Inr (m, s') \<and> strong_invariant s' \<and> system_invariant s'"
    using register_keeps_invariant[OF assms, of r w c l] strong_imp_system by blast
  show "\<exists>m s'. remove_item r' s = Inr (m, s') \<and> strong_invariant s' \<and> system_invariant s'"
    using remove_keeps_invariant[OF assms, of r'] strong_imp_system by blast
  assume "approved it \<and> items s (item_id it) = None"
  then have a: "approved it" "items s (item_id it) = None" by auto
  from store_keeps_invariant[OF assms a, of "next_addr s"]
  show "\<exists>s'. store_item it (s\<lparr>items := (items s)(item_id it \<mapsto> it),
                     approved_items_ids := approved_items_ids s @ [item_id it]\<rparr>) = Inr s'
                \<and> strong_invariant s' \<and> system_invariant s'"
    using strong_imp_system by auto
qed

lemma strong_invariant_shelf: "strong_invariant shelf_state"
  by (auto simp: strong_invariant_def consistent_def all_boxes_def shelf_state_def ex_item_def
      split: if_splits)

theorem operations_keep_invariant_witness:
  "(\<exists>m s'. register_item ''P2'' (Some (Finite 100)) ''azul'' (Some (Finite 15)) shelf_state = Inr (m, s')
       \<and> system_invariant s')
   \<and> (\<exists>m s'. remove_item ''P1'' shelf_state = Inr (m, s') \<and> system_invariant s')
   \<and> (\<exists>s'. store_item late_item
          (shelf_state\<lparr>items := (items shelf_state)(item_id late_item \<mapsto> late_item),
             approved_items_ids := approved_items_ids shelf_state @ [item_id late_item]\<rparr>) = Inr s'
        \<and> system_invariant s')"
proof -
  have new: "approved late_item \<and> items shelf_state (item_id late_item) = None"
    by (simp add: late_item_def ex_item_def shelf_state_def)
  from operations_keep_invariant [OF strong_invariant_shelf,
      of "''P2''" "Some (Finite 100)" "''azul''" "Some (Finite 15)" "''P1''" late_item] new
  show ?thesis by blast
qed

text \<open>
  Claim C7 as stated fails: the three clauses alone are not kept.  From a directory where
  a closed box and the open box each hold an item with id P1, \<open>load_state\<close> lists P1
  twice as approved and files the object of the open box under P1; the three clauses
  hold.  Removing P1 takes that object out of the open box, takes the first P1 out of
  the approved order and deletes the dictionary entry: P1 is still listed as approved
  and resolves to nothing.
\<close>

theorem duplicate_ids_counterexample:
  "approved_items_ids dup_state = [''P1'', ''P1'']
   \<and> system_invariant dup_state
   \<and> map_sum id (\<lambda>(m, s'). (m, approved_items_ids s', items s' ''P1'', system_invariant s'))
        (remove_item ''P1'' dup_state) = Inr (Removed, [''P1''], None, False)"
  by code_simp

subsection \<open>Running reconstruction twice\<close>

lemma Item_from_dict_addr:
  "map_sum id unaddressed (Item_from_dict a d) = map_sum id unaddressed (Item_from_dict b d)"
  by (simp add: Item_from_dict_def Item_init_def unaddressed_def subscript_def split: option.splits)

lemma items_from_dicts_addr:
  "map_sum id (map unaddressed) (items_from_dicts a ds) = map_sum id (map unaddressed) (items_from_dicts b ds)"
proof (induction ds arbitrary: a b)
  case Nil
  then show ?case by simp
next
  case (Cons d ds)
  from Item_from_dict_addr[of a d b] Cons.IH[of "Suc a" "Suc b"]
  show ?case by (auto split: sum.splits)
qed

lemma items_from_dicts_length:
  "items_from_dicts a ds = Inr its \<Longrightarrow> length its = length ds"
  by (induction ds arbitrary: a its) (auto split: sum.splits)

lemma Box_from_dict_addr:
  "map_sum id unaddressed_box (Box_from_dict a d) = map_sum id unaddressed_box (Box_from_dict b d)"
  using items_from_dicts_addr[of a "get_default (bd_items d) []" b]
  by (auto simp: Box_from_dict_def Box_init_def or_empty_def unaddressed_box_def subscript_def
      split: option.splits sum.splits)

lemma read_boxes_view:
  "map unaddressed_box (fst (read_boxes dir a names)) = List.map_filter (entry_view dir) names"
proof (induction names arbitrary: a)
  case Nil
  then show ?case by (simp add: map_filter_simps)
next
  case (Cons n names)
  show ?case
  proof (cases "startswith n ''box_'' \<and> endswith n ''.json''")
    case False
    then have "entry_view dir n = None"
      by (auto simp: entry_view_def readable_box_def split: option.splits)
    with False Cons.IH show ?thesis by (auto simp: map_filter_simps)
  next
    case True
    show ?thesis
    proof (cases "map_of dir n")
      case None
      then have "entry_view dir n = None" by (simp add: entry_view_def)
      with True None Cons.IH show ?thesis by (simp add: map_filter_simps)
    next
      case (Some c)
      show ?thesis
      proof (cases c)
        case Corrupt
        then have "entry_view dir n = None" using Some by (simp add: entry_view_def readable_box_def)
        with True Some Corrupt Cons.IH show ?thesis by (simp add: map_filter_simps)
      next
        case (Json d)
        show ?thesis
        proof (cases "Box_from_dict a d")
          case (Inl e)
          with Box_from_dict_addr[of a d 0] have "\<exists>e. Box_from_dict 0 d = Inl e"
            by (cases "Box_from_dict 0 d") auto
          then have "entry_view dir n = None"
            using Some Json True by (auto simp: entry_view_def readable_box_def)
          with True Some Json Inl Cons.IH show ?thesis by (simp add: map_filter_simps)
        next
          case (Inr b)
          with Box_from_dict_addr[of a d 0] obtain b0 where
            b0: "Box_from_dict 0 d = Inr b0" "unaddressed_box b0 = unaddressed_box b"
            by (cases "Box_from_dict 0 d") auto
          then have "entry_view dir n = Some (unaddressed_box b)"
            using Some Json True by (simp add: entry_view_def readable_box_def)
          with True Some Json Inr Cons.IH[of "a + length (box_items b)"] show ?thesis
            by (auto simp: map_filter_simps split: prod.splits)
        qed
      qed
    qed
  qed
qed

lemma insort_key_map_view:
  assumes "\<And>x. k (f x) = k x"
  shows "map f (insort_key k x ys) = insort_key k (f x) (map f ys)"
  by (induction ys) (simp_all add: assms)

lemma sort_key_map_view:
  assumes "\<And>x. k (f x) = k x"
  shows "map f (sort_key k xs) = sort_key k (map f xs)"
  using assms by (induction xs) (simp_all add: insort_key_map_view[where k = k and f = f])

lemma filter_map_view:
  assumes "\<And>x. p (f x) = p x"
  shows "map f (filter p xs) = filter p (map f xs)"
  by (induction xs) (simp_all add: assms)

lemma unaddressed_box_simps [simp]:
  "box_id (unaddressed_box b) = box_id b"
  "closed (unaddressed_box b) = closed b"
  "box_items (unaddressed_box b) = map unaddressed (box_items b)"
  by (simp_all add: unaddressed_box_def)

lemma unaddressed_simps [simp]:
  "item_id (unaddressed it) = item_id it"
  "approved (unaddressed it) = approved it"
  "unaddressed (unaddressed it) = unaddressed it"
  by (simp_all add: unaddressed_def)

lemma unaddressed_box_init [simp]:
  "unaddressed_box (Box_init n c (Some [])) = Box_init n c (Some [])"
  by (simp add: unaddressed_box_def Box_init_def or_empty_def)

lemma select_boxes_view:
  "select_boxes (map unaddressed_box boxes) =
     (map unaddressed_box (fst (select_boxes boxes)), unaddressed_box (snd (select_boxes boxes)))"
proof -
  let ?u = unaddressed_box
  have c: "map ?u (sort_key box_id (filter closed boxes)) = sort_key box_id (filter closed (map ?u boxes))"
    by (simp add: sort_key_map_view filter_map_view)
  have o: "map ?u (sort_key box_id (filter (\<lambda>b. \<not> closed b) boxes)) =
           sort_key box_id (filter (\<lambda>b. \<not> closed b) (map ?u boxes))"
    by (simp add: sort_key_map_view filter_map_view)
  have ne: "(filter (\<lambda>b. \<not> closed b) (map ?u boxes) = []) = (filter (\<lambda>b. \<not> closed b) boxes = [])"
    by (simp add: filter_empty_conv)
  have l: "filter (\<lambda>b. \<not> closed b) boxes \<noteq> [] \<Longrightarrow>
      last (sort_key box_id (filter (\<lambda>b. \<not> closed b) (map ?u boxes))) =
      ?u (last (sort_key box_id (filter (\<lambda>b. \<not> closed b) boxes)))"
  proof -
    assume "filter (\<lambda>b. \<not> closed b) boxes \<noteq> []"
    then have "sort_key box_id (filter (\<lambda>b. \<not> closed b) boxes) \<noteq> []"
      by (metis length_0_conv length_sort)
    then show ?thesis unfolding o[symmetric] by (simp add: last_map)
  qed
  have m: "box_id ` set (map ?u boxes) = box_id ` set boxes" by (simp add: image_image)
  show ?thesis
    unfolding select_boxes_def c[symmetric] ne m using l by simp
qed

lemma index_of_view:
  "map_option unaddressed \<circ> index_of its = index_of (map unaddressed its)"
proof (induction its rule: rev_induct)
  case Nil
  then show ?case by (simp add: index_of_def fun_eq_iff)
next
  case (snoc it its)
  have a: "index_of (its @ [it]) = (index_of its)(item_id it \<mapsto> it)"
    by (simp add: index_of_def)
  have b: "index_of (map unaddressed its @ [unaddressed it]) =
      (index_of (map unaddressed its))(item_id it \<mapsto> unaddressed it)"
    by (simp add: index_of_def)
  show ?case using snoc unfolding map_append list.map a b
    by (auto simp: fun_eq_iff)
qed

lemma load_rejects_view:
  "map unaddressed (fst (load_rejects t)) = readable_rejects (rejects_file t)"
proof (cases "rejects_file t")
  case None
  then show ?thesis by (simp add: load_rejects_def readable_rejects_def)
next
  case (Some c)
  show ?thesis
  proof (cases c)
    case Corrupt
    with Some show ?thesis by (simp add: load_rejects_def readable_rejects_def)
  next
    case (Json data)
    from items_from_dicts_addr[of "next_addr t" data 0] Some Json show ?thesis
      by (auto simp: load_rejects_def readable_rejects_def split: sum.splits)
  qed
qed

lemma load_boxes_select:
  assumes rb: "read_boxes (box_dir s) (next_addr s) (sort (map fst (box_dir s))) = (boxes, a)"
  shows "fst (load_boxes s) = (fst (select_boxes boxes), Some (snd (select_boxes boxes)))"
    and "box_dir (snd (load_boxes s)) =
           (if filter (\<lambda>b. \<not> closed b) boxes \<noteq> [] then box_dir s
            else AList.update (box_filename (box_id (snd (select_boxes boxes))))
                   (Json (Box_to_dict (snd (select_boxes boxes)))) (box_dir s))"
  unfolding load_boxes_cases[OF rb] select_boxes_def
  by (auto simp: save_box_def)

lemma concat_items_view:
  "map unaddressed (concat (map box_items bs)) = concat (map box_items (map unaddressed_box bs))"
  by (induction bs) simp_all

lemma approved_ids_view:
  "map item_id (filter approved its) = map item_id (filter approved (map unaddressed its))"
  by (induction its) simp_all

lemma load_state_view:
  "state_view (load_state s) =
     rebuilt_view (readable_boxes (box_dir s)) (readable_rejects (rejects_file s))"
  and load_state_dir:
  "box_dir (load_state s) =
     (if filter (\<lambda>b. \<not> closed b) (readable_boxes (box_dir s)) \<noteq> [] then box_dir s
      else AList.update (box_filename (box_id (snd (select_boxes (readable_boxes (box_dir s))))))
             (Json (Box_to_dict (snd (select_boxes (readable_boxes (box_dir s)))))) (box_dir s))"
  and load_state_rejects_file: "rejects_file (load_state s) = rejects_file s"
proof -
  let ?s0 = "s\<lparr>items := Map.empty, approved_items_ids := [], not_approved_items_ids := []\<rparr>"
  let ?u = unaddressed_box
  obtain boxes a where rb: "read_boxes (box_dir ?s0) (next_addr ?s0) (sort (map fst (box_dir ?s0))) = (boxes, a)"
    by (metis prod.exhaust)
  define cbs where "cbs = fst (select_boxes boxes)"
  define ob where "ob = snd (select_boxes boxes)"
  define s1 where "s1 = snd (load_boxes ?s0)"
  have lb: "load_boxes ?s0 = ((cbs, Some ob), s1)"
    using load_boxes_select(1)[OF rb] by (simp add: cbs_def ob_def s1_def prod_eq_iff)
  note ch = load_state_char[OF lb]
  have V: "map ?u boxes = readable_boxes (box_dir s)"
    using read_boxes_view[of "box_dir s" "next_addr s" "sort (map fst (box_dir s))"] rb
    by (simp add: readable_boxes_def)
  have sel: "select_boxes (readable_boxes (box_dir s)) = (map ?u cbs, ?u ob)"
    unfolding V[symmetric] select_boxes_view cbs_def ob_def ..
  have rf: "rejects_file s1 = rejects_file s"
    using load_boxes_frame[OF lb] by simp
  have rs: "map unaddressed (fst (load_rejects s1)) = readable_rejects (rejects_file s)"
    using load_rejects_view[of s1] rf by simp
  let ?its = "concat (map box_items (cbs @ [ob]))"
  have its: "map unaddressed ?its = concat (map box_items (map ?u cbs @ [?u ob]))"
    using concat_items_view[of "cbs @ [ob]"] by simp
  have idx: "map_option unaddressed \<circ> items (load_state s) =
      index_of (concat (map box_items (map ?u cbs @ [?u ob])) @ readable_rejects (rejects_file s))"
  proof -
    have "map_option unaddressed \<circ> index_of (?its @ fst (load_rejects s1)) =
        index_of (map unaddressed ?its @ map unaddressed (fst (load_rejects s1)))"
      by (simp add: index_of_view)
    then show ?thesis by (simp only: ch(1) its rs)
  qed
  have ap: "approved_items_ids (load_state s) =
      map item_id (filter approved (concat (map box_items (map ?u cbs @ [?u ob]))))"
    unfolding ch(2) its[symmetric] by (rule approved_ids_view)
  have rj: "not_approved_items_ids (load_state s) = map item_id (readable_rejects (rejects_file s))"
    unfolding ch(3) rs[symmetric] by simp
  show "state_view (load_state s) =
     rebuilt_view (readable_boxes (box_dir s)) (readable_rejects (rejects_file s))"
    unfolding state_view_def rebuilt_view_def sel Let_def prod.case idx ap rj ch(4) ch(5)
    by simp
  show "rejects_file (load_state s) = rejects_file s" by (rule ch(7))
  have fe: "(filter (\<lambda>b. \<not> closed b) (readable_boxes (box_dir s)) = []) =
            (filter (\<lambda>b. \<not> closed b) boxes = [])"
    unfolding V[symmetric] by (simp add: filter_empty_conv)
  have ob_synth: "filter (\<lambda>b. \<not> closed b) boxes = [] \<Longrightarrow> ?u ob = ob"
    by (auto simp: ob_def select_boxes_def)
  have "box_dir (load_state s) = box_dir s1" by (rule ch(6))
  also have "\<dots> = (if filter (\<lambda>b. \<not> closed b) boxes \<noteq> [] then box_dir s
            else AList.update (box_filename (box_id ob)) (Json (Box_to_dict ob)) (box_dir s))"
    using load_boxes_select(2)[OF rb] by (simp add: s1_def ob_def)
  finally show "box_dir (load_state s) =
     (if filter (\<lambda>b. \<not> closed b) (readable_boxes (box_dir s)) \<noteq> [] then box_dir s
      else AList.update (box_filename (box_id (snd (select_boxes (readable_boxes (box_dir s))))))
             (Json (Box_to_dict (snd (select_boxes (readable_boxes (box_dir s)))))) (box_dir s))"
    unfolding sel snd_conv fe using ob_synth by auto
qed

lemma map_filter_append: "List.map_filter f (xs @ ys) = List.map_filter f xs @ List.map_filter f ys"
  by (simp add: List.map_filter_def)

lemma map_filter_cong_set:
  assumes "\<And>x. x \<in> set xs \<Longrightarrow> f x = g x"
  shows "List.map_filter f xs = List.map_filter g xs"
proof -
  have 1: "filter (\<lambda>x. f x \<noteq> None) xs = filter (\<lambda>x. g x \<noteq> None) xs"
    using assms by (intro filter_cong) auto
  have 2: "map (the \<circ> f) (filter (\<lambda>x. g x \<noteq> None) xs) = map (the \<circ> g) (filter (\<lambda>x. g x \<noteq> None) xs)"
    using assms by (intro map_cong) auto
  show ?thesis unfolding List.map_filter_def 1 2 ..
qed

lemma set_map_filter: "set (List.map_filter f xs) = {y. \<exists>x \<in> set xs. f x = Some y}"
  by (induction xs) (auto simp: map_filter_simps split: option.splits)

lemma entry_view_update:
  "entry_view (AList.update k v dir) n = (if n = k then readable_box k v else entry_view dir n)"
  by (simp add: entry_view_def AList.update_conv')

lemma sorted_names_update:
  assumes dist: "distinct (map fst dir)"
  shows "\<exists>N1 N2. sort (map fst (AList.update k v dir)) = N1 @ k # N2 \<and> k \<notin> set N1 \<and> k \<notin> set N2 \<and>
           (sort (map fst dir) = N1 @ k # N2 \<or> sort (map fst dir) = N1 @ N2)"
proof -
  let ?names = "sort (map fst dir)" and ?names' = "sort (map fst (AList.update k v dir))"
  have keys: "map fst (AList.update k v dir) =
      (if k \<in> set (map fst dir) then map fst dir else map fst dir @ [k])"
    by (rule AList.update_keys)
  have d': "distinct ?names'" using dist by (simp add: AList.distinct_update)
  have "k \<in> set ?names'" using keys by auto
  then obtain N1 N2 where sp: "?names' = N1 @ k # N2" by (meson split_list)
  with d' have nk: "k \<notin> set N1" "k \<notin> set N2" by auto
  show ?thesis
  proof (cases "k \<in> set (map fst dir)")
    case True
    with keys have "?names = ?names'" by simp
    with sp nk show ?thesis by auto
  next
    case False
    have s': "sorted ?names'" by simp
    then have "sorted (N1 @ N2)" unfolding sp by (auto simp: sorted_append)
    moreover have "distinct (N1 @ N2)" using d' unfolding sp by auto
    moreover have "set (N1 @ N2) = set ?names"
    proof -
      have "set ?names' = insert k (set ?names)" using keys False by auto
      then have "insert k (set (N1 @ N2)) = insert k (set ?names)" unfolding sp by auto
      moreover have "k \<notin> set ?names" using False by simp
      ultimately show ?thesis using nk by auto
    qed
    moreover have "sorted ?names" "distinct ?names" using dist by simp_all
    ultimately have "?names = N1 @ N2" by (metis sorted_distinct_set_unique)
    with sp nk show ?thesis by auto
  qed
qed

lemma readable_boxes_update:
  assumes dist: "distinct (map fst dir)"
    and new: "readable_box k v = Some sv"
    and old: "entry_view dir k = None"
  shows "\<exists>V1 V2. readable_boxes dir = V1 @ V2 \<and> readable_boxes (AList.update k v dir) = V1 @ sv # V2"
proof -
  let ?e = "entry_view dir" and ?e' = "entry_view (AList.update k v dir)"
  from sorted_names_update[OF dist, of k v] obtain N1 N2 where
    n': "sort (map fst (AList.update k v dir)) = N1 @ k # N2" and nk: "k \<notin> set N1" "k \<notin> set N2"
    and n: "sort (map fst dir) = N1 @ k # N2 \<or> sort (map fst dir) = N1 @ N2"
    by blast
  have e1: "List.map_filter ?e' N1 = List.map_filter ?e N1"
    using nk(1) by (intro map_filter_cong_set) (auto simp: entry_view_update)
  have e2: "List.map_filter ?e' N2 = List.map_filter ?e N2"
    using nk(2) by (intro map_filter_cong_set) (auto simp: entry_view_update)
  have ek: "?e' k = Some sv" using new by (simp add: entry_view_update)
  have v': "readable_boxes (AList.update k v dir) =
      List.map_filter ?e N1 @ sv # List.map_filter ?e N2"
    unfolding readable_boxes_def n' by (simp add: map_filter_append map_filter_simps e1 e2 ek)
  have v: "readable_boxes dir = List.map_filter ?e N1 @ List.map_filter ?e N2"
    using n old unfolding readable_boxes_def
    by (auto simp: map_filter_append map_filter_simps)
  from v v' show ?thesis by blast
qed

lemma readable_synth:
  "readable_box (box_filename n) (Json (Box_to_dict (Box_init n False (Some [])))) =
     Some (Box_init n False (Some []))"
  using box_filename_pattern[of n]
  by (simp add: readable_box_def Box_from_dict_def Box_to_dict_def Box_init_def or_empty_def
      subscript_def get_default_def unaddressed_box_def)

lemma entry_view_in_readable:
  "entry_view dir k = Some b \<Longrightarrow> b \<in> set (readable_boxes dir)"
proof -
  assume e: "entry_view dir k = Some b"
  then obtain c where "map_of dir k = Some c" by (auto simp: entry_view_def split: option.splits)
  then have "k \<in> set (sort (map fst dir))" by (auto dest: map_of_SomeD intro: rev_image_eqI)
  with e show ?thesis unfolding readable_boxes_def set_map_filter by blast
qed

lemma stored_entry:
  assumes "stored_by_id dir" and "entry_view dir k = Some b"
  shows "k = box_filename (box_id b)"
proof -
  from assms(2) obtain c where c: "map_of dir k = Some c" "readable_box k c = Some b"
    by (auto simp: entry_view_def split: option.splits)
  then have "(k, c) \<in> set dir" by (auto dest: map_of_SomeD)
  with assms(1) c(2) show ?thesis by (fastforce simp: stored_by_id_def)
qed

lemma select_after_write:
  assumes st: "stored_by_id dir"
    and no_open: "filter (\<lambda>b. \<not> closed b) (readable_boxes dir) = []"
  shows "select_boxes (readable_boxes
            (AList.update (box_filename (box_id (snd (select_boxes (readable_boxes dir)))))
               (Json (Box_to_dict (snd (select_boxes (readable_boxes dir))))) dir)) =
         select_boxes (readable_boxes dir)"
    and "filter (\<lambda>b. \<not> closed b) (readable_boxes
            (AList.update (box_filename (box_id (snd (select_boxes (readable_boxes dir)))))
               (Json (Box_to_dict (snd (select_boxes (readable_boxes dir))))) dir)) \<noteq> []"
proof -
  let ?V = "readable_boxes dir"
  define n where "n = (if ?V = [] then 1 else Max (box_id ` set ?V) + 1)"
  define ob where "ob = Box_init n False (Some [])"
  have ob: "snd (select_boxes ?V) = ob"
    using no_open by (simp add: select_boxes_def ob_def n_def)
  have idn: "box_id ob = n" and op: "\<not> closed ob" by (simp_all add: ob_def Box_init_def)
  have allc: "\<forall>b \<in> set ?V. closed b" using no_open by (simp add: filter_empty_conv)
  have old: "entry_view dir (box_filename n) = None"
  proof (rule ccontr)
    assume "entry_view dir (box_filename n) \<noteq> None"
    then obtain b where b: "entry_view dir (box_filename n) = Some b" by auto
    then have mem: "b \<in> set ?V" by (rule entry_view_in_readable)
    from stored_entry[OF st b] have "box_id b = n" by (simp add: box_filename_inj)
    moreover have "box_id b \<le> Max (box_id ` set ?V)" using mem by simp
    moreover have "?V \<noteq> []" using mem by auto
    ultimately show False by (simp add: n_def)
  qed
  have dist: "distinct (map fst dir)" using st by (simp add: stored_by_id_def)
  have new: "readable_box (box_filename n) (Json (Box_to_dict ob)) = Some ob"
    unfolding ob_def by (rule readable_synth)
  from readable_boxes_update[OF dist new old] obtain V1 V2 where
    v: "?V = V1 @ V2" and
    v': "readable_boxes (AList.update (box_filename n) (Json (Box_to_dict ob)) dir) = V1 @ ob # V2"
    by blast
  have c12: "\<forall>b \<in> set V1. closed b" "\<forall>b \<in> set V2. closed b" using allc v by auto
  then have f1: "filter (\<lambda>b. \<not> closed b) V1 = []" "filter (\<lambda>b. \<not> closed b) V2 = []"
    by (simp_all add: filter_empty_conv)
  have fo: "filter (\<lambda>b. \<not> closed b) (V1 @ ob # V2) = [ob]" using f1 op by simp
  have fc: "filter closed (V1 @ ob # V2) = filter closed (V1 @ V2)" using op by simp
  have "select_boxes (V1 @ ob # V2) = (sort_key box_id (filter closed (V1 @ V2)), ob)"
    unfolding select_boxes_def fo fc by simp
  moreover have "select_boxes ?V = (sort_key box_id (filter closed (V1 @ V2)), ob)"
    using ob unfolding v[symmetric] by (simp add: select_boxes_def prod_eq_iff)
  ultimately show "select_boxes (readable_boxes
            (AList.update (box_filename (box_id (snd (select_boxes ?V))))
               (Json (Box_to_dict (snd (select_boxes ?V)))) dir)) = select_boxes ?V"
    unfolding ob idn v' by simp
  show "filter (\<lambda>b. \<not> closed b) (readable_boxes
            (AList.update (box_filename (box_id (snd (select_boxes ?V))))
               (Json (Box_to_dict (snd (select_boxes ?V)))) dir)) \<noteq> []"
    unfolding ob idn v' fo by simp
qed

text \<open>
  Claim C8, amended.  When every readable box record lies in the file named after its
  own id, running \<open>load_state\<close> a second time, over the files the first run leaves,
  gives the same item dictionary, approved order, rejected order, closed boxes and open
  box as the first run (the items in new objects), and writes nothing.
\<close>

theorem reconstruction_idempotent:
  assumes "stored_by_id (box_dir s)"
  shows "state_view (load_state (load_state s)) = state_view (load_state s)
     \<and> box_dir (load_state (load_state s)) = box_dir (load_state s)
     \<and> rejects_file (load_state (load_state s)) = rejects_file (load_state s)"
proof -
  let ?t = "load_state s"
  let ?V = "readable_boxes (box_dir s)" and ?V' = "readable_boxes (box_dir ?t)"
  have sel: "select_boxes ?V' = select_boxes ?V \<and> filter (\<lambda>b. \<not> closed b) ?V' \<noteq> []"
  proof (cases "filter (\<lambda>b. \<not> closed b) ?V = []")
    case False
    then have "box_dir ?t = box_dir s" by (simp add: load_state_dir)
    with False show ?thesis by simp
  next
    case True
    then have "box_dir ?t =
        AList.update (box_filename (box_id (snd (select_boxes ?V))))
          (Json (Box_to_dict (snd (select_boxes ?V)))) (box_dir s)"
      by (simp add: load_state_dir)
    with select_after_write[OF assms True] show ?thesis by simp
  qed
  have "state_view (load_state ?t) = rebuilt_view ?V' (readable_rejects (rejects_file ?t))"
    by (rule load_state_view)
  also have "\<dots> = rebuilt_view ?V (readable_rejects (rejects_file s))"
    using sel by (simp add: rebuilt_view_def load_state_rejects_file)
  also have "\<dots> = state_view ?t" by (rule load_state_view[symmetric])
  finally have 1: "state_view (load_state ?t) = state_view ?t" .
  have 2: "box_dir (load_state ?t) = box_dir ?t"
    using sel by (simp add: load_state_dir[of ?t])
  have 3: "rejects_file (load_state ?t) = rejects_file ?t" by (rule load_state_rejects_file)
  from 1 2 3 show ?thesis by blast
qed

lemma box_filename_1: "box_filename 1 = ''box_0001.json''"
  by code_simp

lemma readable_closed_dir:
  "readable_box ''box_0001.json'' (Json \<lparr>bd_id = Some 1, bd_closed = Some True, bd_items = Some [Item_to_dict ex_item]\<rparr>)
     = Some \<lparr>box_id = 1, closed = True, box_items = [unaddressed ex_item]\<rparr>"
  by code_simp

lemma stored_closed_dir: "stored_by_id closed_dir"
  by (simp add: stored_by_id_def closed_dir_def readable_closed_dir box_filename_1)

theorem reconstruction_idempotent_witness:
  "state_view (load_state (load_state (initial_state closed_dir None))) =
     state_view (load_state (initial_state closed_dir None))
   \<and> box_dir (load_state (load_state (initial_state closed_dir None))) =
     box_dir (load_state (initial_state closed_dir None))"
proof -
  have "stored_by_id (box_dir (initial_state closed_dir None))"
    using stored_closed_dir by (simp add: initial_state_def)
  from reconstruction_idempotent [OF this] show ?thesis by blast
qed

text \<open>
  Claim C8 as stated fails on a directory whose only file, \<open>box_0002.json\<close>, holds the
  closed box 1 with the item P1.  The first run reads box 1, finds no open box and
  writes the new box 2 to \<open>box_0002.json\<close>, over the record of box 1: P1 is approved
  and box 1 is closed.  The second run reads box 2 alone: no closed box, no item.
\<close>

theorem reconstruction_misnamed_counterexample:
  "approved_items_ids (load_state (initial_state misnamed_dir None)) = [''P1'']
   \<and> map box_id (closed_boxes (load_state (initial_state misnamed_dir None))) = [1]
   \<and> map_option box_id (open_box (load_state (initial_state misnamed_dir None))) = Some 2
   \<and> approved_items_ids (load_state (load_state (initial_state misnamed_dir None))) = []
   \<and> closed_boxes (load_state (load_state (initial_state misnamed_dir None))) = []
   \<and> items (load_state (load_state (initial_state misnamed_dir None))) ''P1'' = None
   \<and> map_option box_id (open_box (load_state (load_state (initial_state misnamed_dir None)))) = Some 2"
  by code_simp

end
